theory Spec2Isabelle
  imports Complex_Main "HOL-Library.AList" "HOL-Library.Product_Lexorder" "HOL-Library.List_Lexorder"
    "HOL-Library.Char_ord"
begin

section \<open>Python values used by the story pipeline\<close>

text \<open>
  Text is modelled as \<^typ>\<open>string\<close>. The character tests below are the ones the source
  applies to the characters that its regular expressions let through (the ASCII letters and
  digits); Python's \<^verbatim>\<open>str.isdigit\<close> agrees with \<open>isdigit\<close> on them.
\<close>

definition isdigit :: "char \<Rightarrow> bool" where
  "isdigit c = (c \<in> set ''0123456789'')"

definition isalpha_ascii :: "char \<Rightarrow> bool" where
  "isalpha_ascii c =
     (c \<in> set ''abcdefghijklmnopqrstuvwxyzABCDEFGHIJKLMNOPQRSTUVWXYZ'')"

definition isalnum_ascii :: "char \<Rightarrow> bool" where
  "isalnum_ascii c = (isdigit c \<or> isalpha_ascii c)"

text \<open>\<^verbatim>\<open>str.isdigit()\<close>: every character is a digit and there is at least one.\<close>

definition str_isdigit :: "string \<Rightarrow> bool" where
  "str_isdigit s = (s \<noteq> [] \<and> list_all isdigit s)"

text \<open>\<^verbatim>\<open>int(s)\<close> on a string of decimal digits (the only strings the source passes).\<close>

definition digit_val :: "char \<Rightarrow> int" where
  "digit_val c = int (of_char c) - 48"

definition py_int :: "string \<Rightarrow> int" where
  "py_int s = foldl (\<lambda>a c. 10 * a + digit_val c) 0 s"

text \<open>\<^verbatim>\<open>str(n)\<close> and \<^verbatim>\<open>f"{n}"\<close> for an integer.\<close>

definition digit_char :: "nat \<Rightarrow> char" where
  "digit_char d = char_of (48 + d)"

fun nat_digits :: "nat \<Rightarrow> string" where
  "nat_digits n = (if n < 10 then [digit_char n] else nat_digits (n div 10) @ [digit_char (n mod 10)])"

declare nat_digits.simps [simp del]

definition str_int :: "int \<Rightarrow> string" where
  "str_int i = (if i < 0 then CHR ''-'' # nat_digits (nat (- i)) else nat_digits (nat i))"

section \<open>String operations of the source\<close>

text \<open>\<^verbatim>\<open>s.startswith(p)\<close>, \<^verbatim>\<open>sub in s\<close>, \<^verbatim>\<open>s.lower()\<close> on the ASCII letters, \<^verbatim>\<open>s.strip()\<close>.\<close>

definition startswith :: "string \<Rightarrow> string \<Rightarrow> bool" where
  "startswith s p = (take (length p) s = p)"

fun contains :: "string \<Rightarrow> string \<Rightarrow> bool" where
  "contains sub [] = (sub = [])"
| "contains sub (c # s) = (startswith (c # s) sub \<or> contains sub s)"

definition lower_char :: "char \<Rightarrow> char" where
  "lower_char c =
     (case map_of (zip ''ABCDEFGHIJKLMNOPQRSTUVWXYZ'' ''abcdefghijklmnopqrstuvwxyz'') c of
        Some d \<Rightarrow> d
      | None \<Rightarrow> c)"

definition lower :: "string \<Rightarrow> string" where
  "lower s = map lower_char s"

text \<open>
  The characters that \<^verbatim>\<open>str.strip()\<close>, \<^verbatim>\<open>str.split()\<close> and the regular expression
  \<^verbatim>\<open>\s\<close> treat as white space, among the first 256 code points.
\<close>

definition isspace :: "char \<Rightarrow> bool" where
  "isspace c = (of_char c \<in> {9, 10, 11, 12, 13, 28, 29, 30, 31, 32, 133, 160 :: nat})"

definition strip :: "string \<Rightarrow> string" where
  "strip s = rev (dropWhile isspace (rev (dropWhile isspace s)))"

text \<open>\<^verbatim>\<open>s.split()\<close>: the maximal runs of characters that are not white space.\<close>

fun split_ws :: "string \<Rightarrow> string \<Rightarrow> string list" where
  "split_ws [] cur = (if cur = [] then [] else [cur])"
| "split_ws (c # s) cur =
     (if isspace c then (if cur = [] then split_ws s [] else cur # split_ws s [])
      else split_ws s (cur @ [c]))"

text \<open>\<^verbatim>\<open>sep.join(parts)\<close>.\<close>

fun join :: "string \<Rightarrow> string list \<Rightarrow> string" where
  "join sep [] = []"
| "join sep [p] = p"
| "join sep (p # q # ps) = p @ sep @ join sep (q # ps)"

text \<open>\<^verbatim>\<open>s.split("_")[-1]\<close>: what follows the last underscore.\<close>

definition last_segment :: "string \<Rightarrow> string" where
  "last_segment s = rev (takeWhile (\<lambda>c. c \<noteq> CHR ''_'') (rev s))"

text \<open>
  \<^verbatim>\<open>int(s)\<close> on a string without underscores: optional white space around an optional
  sign and at least one decimal digit; anything else raises \<^verbatim>\<open>ValueError\<close> (\<open>None\<close>).
\<close>

definition int_literal :: "string \<Rightarrow> int option" where
  "int_literal s =
     (let t = strip s in
      case t of
        [] \<Rightarrow> None
      | c # r \<Rightarrow>
          if c = CHR ''-'' then (if str_isdigit r then Some (- py_int r) else None)
          else if c = CHR ''+'' then (if str_isdigit r then Some (py_int r) else None)
          else if str_isdigit t then Some (py_int t) else None)"

section \<open>OCR digit correction (repair\_story\_text.py)\<close>

definition DIGIT_OCR_MAP :: "(char \<times> char) list" where
  "DIGIT_OCR_MAP =
     [(CHR ''O'', CHR ''0''), (CHR ''o'', CHR ''0''),
      (CHR ''I'', CHR ''1''), (CHR ''l'', CHR ''1''),
      (CHR ''S'', CHR ''5''), (CHR ''s'', CHR ''5''),
      (CHR ''B'', CHR ''8''),
      (CHR ''g'', CHR ''9''), (CHR ''q'', CHR ''9''),
      (CHR ''H'', CHR ''7''), (CHR ''h'', CHR ''7'')]"

text \<open>
  The \<^verbatim>\<open>for char in token\<close> loop of \<^verbatim>\<open>token_to_int\<close>: \<open>chars\<close> is the list built so
  far, \<open>None\<close> is the early \<^verbatim>\<open>return None\<close>.
\<close>

fun ocr_loop :: "string \<Rightarrow> string \<Rightarrow> string option" where
  "ocr_loop [] chars = Some chars"
| "ocr_loop (c # cs) chars =
     (if isdigit c then ocr_loop cs (chars @ [c])
      else (case map_of DIGIT_OCR_MAP c of
              Some d \<Rightarrow> ocr_loop cs (chars @ [d])
            | None \<Rightarrow> None))"

definition token_to_int :: "string \<Rightarrow> int option" where
  "token_to_int token =
     (if str_isdigit token then Some (py_int token)
      else (case ocr_loop token [] of
              None \<Rightarrow> None
            | Some chars \<Rightarrow> if chars = [] then None else Some (py_int chars)))"

text \<open>
  A destination token is what group 2 of \<^verbatim>\<open>CHOICE_SENTENCE_RE\<close>,
  \<^verbatim>\<open>([0-9A-Za-z]{1,5})\<close>, can capture.
\<close>

definition is_token :: "string \<Rightarrow> bool" where
  "is_token t = (1 \<le> length t \<and> length t \<le> 5 \<and> list_all isalnum_ascii t)"

text \<open>
  The table as the specification words it: O/o to 0, I/l to 1, S/s to 5, B to 8, g/q to 9,
  H/h to 7; a digit stands for itself.
\<close>

definition spec_digit :: "char \<Rightarrow> int option" where
  "spec_digit c =
     (if isdigit c then Some (digit_val c)
      else if c = CHR ''O'' \<or> c = CHR ''o'' then Some 0
      else if c = CHR ''I'' \<or> c = CHR ''l'' then Some 1
      else if c = CHR ''S'' \<or> c = CHR ''s'' then Some 5
      else if c = CHR ''B'' then Some 8
      else if c = CHR ''g'' \<or> c = CHR ''q'' then Some 9
      else if c = CHR ''H'' \<or> c = CHR ''h'' then Some 7
      else None)"

definition decimal :: "int list \<Rightarrow> int" where
  "decimal ds = foldl (\<lambda>a d. 10 * a + d) 0 ds"

text \<open>The character that \<^verbatim>\<open>token_to_int\<close> appends for a mappable character.\<close>

definition ocr_char :: "char \<Rightarrow> char" where
  "ocr_char c = (if isdigit c then c else the (map_of DIGIT_OCR_MAP c))"

section \<open>Parsed sections and link repair (build\_story.py)\<close>

text \<open>
  A parsed section is the dictionary that \<^verbatim>\<open>parse.py\<close> writes and that
  \<^verbatim>\<open>extract_section_payload\<close> returns: \<^verbatim>\<open>section_number\<close>, \<^verbatim>\<open>text\<close>,
  \<^verbatim>\<open>choices\<close>, \<^verbatim>\<open>node_type\<close> and, in \<^verbatim>\<open>repair_story_text.py\<close> only, \<^verbatim>\<open>title\<close>.
  A key that may be absent is an \<open>option\<close>. A parsed choice carries its label and the
  destination section number.
\<close>

record pchoice =
  label :: string
  destination :: int

record parsed_section =
  section_number :: int
  sec_title :: "string option"
  sec_text :: string
  sec_choices :: "pchoice list"
  sec_node_type :: "string option"

definition choice_sort_key :: "int \<Rightarrow> int \<Rightarrow> int \<times> int" where
  "choice_sort_key x target = (\<bar>x - target\<bar>, x)"

text \<open>
  \<^verbatim>\<open>by_num\<close> maps a section number to a section object. Its values are the very
  objects of the input list (the loop mutates their choices in place, and the result is read
  through \<^verbatim>\<open>by_num\<close> afterwards), or stubs created by the repair. An object of the input
  list is named by its position; \<open>deref\<close> reads it from the list as it stands.
\<close>

datatype sref = Obj nat | New parsed_section

fun deref :: "parsed_section list \<Rightarrow> sref \<Rightarrow> parsed_section" where
  "deref secs (Obj i) = secs ! i"
| "deref secs (New s) = s"

text \<open>
  The state of the repair loop: the dictionary \<^verbatim>\<open>by_num\<close>, the set \<^verbatim>\<open>existing\<close>
  (a list without an order of its own: the code only tests membership and sorts what it
  filters out of it) and the \<^verbatim>\<open>report\<close> lines.
\<close>

record fix_state =
  by_num :: "(int \<times> sref) list"
  existing :: "int list"
  report :: "string list"

definition remapped_line :: "int \<Rightarrow> int \<Rightarrow> int \<Rightarrow> string" where
  "remapped_line dest new_dest src =
     ''Remapped missing destination '' @ str_int dest @ '' -> '' @ str_int new_dest
       @ '' (source section '' @ str_int src @ '')''"

definition created_line :: "int \<Rightarrow> int \<Rightarrow> string" where
  "created_line dest src =
     ''Created stub section '' @ str_int dest @ '' (referenced by section ''
       @ str_int src @ '')''"

definition not_found_text :: "int \<Rightarrow> string" where
  "not_found_text n = ''[Section '' @ str_int n @ '' - not found in source]''"

definition stub_section :: "int \<Rightarrow> parsed_section" where
  "stub_section dest =
     \<lparr>section_number = dest, sec_title = None, sec_text = not_found_text dest,
      sec_choices = [], sec_node_type = Some ''ending_neutral''\<rparr>"

text \<open>The body of \<^verbatim>\<open>for choice in section.get("choices", [])\<close>, for source section \<open>src\<close>.\<close>

definition fix_choice :: "int \<Rightarrow> pchoice \<Rightarrow> fix_state \<Rightarrow> pchoice \<times> fix_state" where
  "fix_choice src choice st =
     (let dest = destination choice in
      if dest \<in> set (existing st) then (choice, st)
      else
        let near = filter (\<lambda>n. \<bar>n - dest\<bar> \<le> 2) (existing st) in
        if near \<noteq> [] then
          let new_dest = hd (sort_key (\<lambda>n. choice_sort_key n dest) near) in
          (choice\<lparr>destination := new_dest\<rparr>,
           st\<lparr>report := report st @ [remapped_line dest new_dest src]\<rparr>)
        else
          (choice,
           st\<lparr>by_num := AList.update dest (New (stub_section dest)) (by_num st),
              existing := existing st @ [dest],
              report := report st @ [created_line dest src]\<rparr>))"

fun fix_choices :: "int \<Rightarrow> pchoice list \<Rightarrow> fix_state \<Rightarrow> pchoice list \<times> fix_state" where
  "fix_choices src [] st = ([], st)"
| "fix_choices src (c # cs) st =
     (case fix_choice src c st of (c', st') \<Rightarrow>
        (case fix_choices src cs st' of (cs', st'') \<Rightarrow> (c' # cs', st'')))"

text \<open>The outer \<^verbatim>\<open>for section in sections\<close>; the sections come back mutated, in place.\<close>

fun fix_sections :: "parsed_section list \<Rightarrow> fix_state \<Rightarrow> parsed_section list \<times> fix_state" where
  "fix_sections [] st = ([], st)"
| "fix_sections (s # ss) st =
     (case fix_choices (section_number s) (sec_choices s) st of (cs', st') \<Rightarrow>
        (case fix_sections ss st' of (ss', st'') \<Rightarrow> (s\<lparr>sec_choices := cs'\<rparr> # ss', st'')))"

text \<open>\<^verbatim>\<open>{s["section_number"]: s for s in sections}\<close>: a later section replaces an earlier one.\<close>

fun index_sections :: "nat \<Rightarrow> parsed_section list \<Rightarrow> (int \<times> sref) list \<Rightarrow> (int \<times> sref) list" where
  "index_sections i [] m = m"
| "index_sections i (s # ss) m = index_sections (Suc i) ss (AList.update (section_number s) (Obj i) m)"

definition fix_broken_links :: "parsed_section list \<Rightarrow> parsed_section list \<times> string list" where
  "fix_broken_links sections =
     (let by_num0 = index_sections 0 sections [];
          st0 = \<lparr>by_num = by_num0, existing = map fst by_num0, report = []\<rparr>
      in case fix_sections sections st0 of (sections', st) \<Rightarrow>
           (map (\<lambda>(n, r). deref sections' r) (sort_key fst (by_num st)), report st))"

section \<open>Story nodes\<close>

text \<open>
  A node of \<^verbatim>\<open>story.json\<close>. The fields \<^verbatim>\<open>ascii_art\<close>, \<^verbatim>\<open>effects\<close>,
  \<^verbatim>\<open>random_event_pool\<close> and, in a choice, \<^verbatim>\<open>requires\<close> and \<^verbatim>\<open>effects\<close> are
  decoration that no function below reads back; they are left out.
\<close>

record choice =
  choice_text :: string
  next_id :: string

record node =
  node_id :: string
  node_number :: int
  title :: string
  node_text :: string
  node_type :: string
  choices :: "choice list"

definition VALID_NODE_TYPES :: "string list" where
  "VALID_NODE_TYPES = [''normal'', ''ending_win'', ''ending_death'', ''ending_neutral'']"

definition section_id :: "int \<Rightarrow> string" where
  "section_id n = ''section_'' @ str_int n"

text \<open>
  The final ordering shared by \<^verbatim>\<open>build_story.py\<close>, \<^verbatim>\<open>repair_story_text.py\<close> and
  \<^verbatim>\<open>validate.py\<close>: ascending by number, then section 1 first when there is one.
\<close>

definition entry_first :: "node list \<Rightarrow> node list" where
  "entry_first nodes =
     (let sorted_nodes = sort_key node_number nodes in
      if list_ex (\<lambda>n. node_number n = 1) sorted_nodes
      then sort_key (\<lambda>n. (node_number n \<noteq> 1, node_number n)) sorted_nodes
      else sorted_nodes)"

text \<open>The first node that satisfies \<open>P\<close> becomes a win ending (a loop with \<^verbatim>\<open>break\<close>).\<close>

fun promote_first :: "(node \<Rightarrow> bool) \<Rightarrow> node list \<Rightarrow> node list" where
  "promote_first P [] = []"
| "promote_first P (n # ns) =
     (if P n then n\<lparr>node_type := ''ending_win''\<rparr> # ns else n # promote_first P ns)"

definition is_win :: "node \<Rightarrow> bool" where
  "is_win n = (node_type n = ''ending_win'')"

section \<open>Repair and node building in repair\_story\_text.py\<close>

definition infer_node_type :: "string \<Rightarrow> bool \<Rightarrow> string" where
  "infer_node_type txt has_choices =
     (if has_choices then ''normal''
      else
        let lower_txt = lower txt;
            death_terms = [''death'', ''die'', ''dead'', ''killed'', ''execution'', ''burn'',
              ''collapse'', ''you don'' @ [CHR 0x27] @ ''t'', ''too late'', ''never seen again'',
              ''won'' @ [CHR 0x27] @ ''t be''];
            win_terms = [''victory'', ''you survive'', ''you return'', ''back in your own time'',
              ''you are free'', ''you find the forbidden castle'', ''worth the trip'']
        in if list_ex (\<lambda>term. contains term lower_txt) death_terms then ''ending_death''
           else if list_ex (\<lambda>term. contains term lower_txt) win_terms then ''ending_win''
           else ''ending_neutral'')"

text \<open>
  The state of the loop at lines 574 to 602: the dictionary \<^verbatim>\<open>parsed\<close>, the set
  \<^verbatim>\<open>existing_sections\<close> and the list \<^verbatim>\<open>link_changes\<close>.
\<close>

record repair_state =
  parsed :: "(int \<times> parsed_section) list"
  existing_sections :: "int list"
  link_changes :: "string list"

definition remapped_from_line :: "int \<Rightarrow> int \<Rightarrow> int \<Rightarrow> string" where
  "remapped_from_line dest remap src =
     ''Remapped missing destination '' @ str_int dest @ '' -> '' @ str_int remap
       @ '' (from section '' @ str_int src @ '').''"

definition created_stub_line :: "int \<Rightarrow> int \<Rightarrow> string" where
  "created_stub_line dest src =
     ''Created stub section '' @ str_int dest @ '' (referenced by section ''
       @ str_int src @ '').''"

definition stub_payload :: "int \<Rightarrow> parsed_section" where
  "stub_payload dest =
     \<lparr>section_number = dest, sec_title = Some (''Section '' @ str_int dest),
      sec_text = not_found_text dest, sec_choices = [],
      sec_node_type = Some ''ending_neutral''\<rparr>"

definition repair_choice :: "int \<Rightarrow> pchoice \<Rightarrow> repair_state \<Rightarrow> pchoice \<times> repair_state" where
  "repair_choice src choice st =
     (let dest = destination choice in
      if dest \<in> set (existing_sections st) then (choice, st)
      else
        let near = filter (\<lambda>num. \<bar>num - dest\<bar> \<le> 2) (existing_sections st) in
        if near \<noteq> [] then
          let remap = hd (sort_key (\<lambda>v. (\<bar>v - dest\<bar>, v)) near) in
          (choice\<lparr>destination := remap\<rparr>,
           st\<lparr>link_changes := link_changes st @ [remapped_from_line dest remap src]\<rparr>)
        else
          (choice,
           st\<lparr>parsed := AList.update dest (stub_payload dest) (parsed st),
              existing_sections := existing_sections st @ [dest],
              link_changes := link_changes st @ [created_stub_line dest src]\<rparr>))"

fun repair_choices :: "int \<Rightarrow> pchoice list \<Rightarrow> repair_state \<Rightarrow> pchoice list \<times> repair_state" where
  "repair_choices src [] st = ([], st)"
| "repair_choices src (c # cs) st =
     (case repair_choice src c st of (c', st') \<Rightarrow>
        (case repair_choices src cs st' of (cs', st'') \<Rightarrow> (c' # cs', st'')))"

text \<open>
  \<^verbatim>\<open>for node in sorted(parsed.values(), key=...)\<close>: the nodes are the values that
  \<^verbatim>\<open>parsed\<close> held when the loop started, named here by their keys; a node is mutated in
  place, so its new choices are stored back under its key.
\<close>

fun repair_nodes :: "int list \<Rightarrow> repair_state \<Rightarrow> repair_state" where
  "repair_nodes [] st = st"
| "repair_nodes (k # ks) st =
     (case map_of (parsed st) k of
        None \<Rightarrow> repair_nodes ks st
      | Some node \<Rightarrow>
          (case repair_choices (section_number node) (sec_choices node) st of (cs', st') \<Rightarrow>
             repair_nodes ks
               (st'\<lparr>parsed := AList.update k (node\<lparr>sec_choices := cs'\<rparr>) (parsed st')\<rparr>)))"

definition repair_links ::
    "(int \<times> parsed_section) list \<Rightarrow> string list \<Rightarrow> (int \<times> parsed_section) list \<times> string list" where
  "repair_links parsed0 changes0 =
     (let st = repair_nodes (map fst (sort_key (\<lambda>(k, item). section_number item) parsed0))
                 \<lparr>parsed = parsed0, existing_sections = map fst parsed0, link_changes = changes0\<rparr>
      in (parsed st, link_changes st))"

text \<open>The body of \<^verbatim>\<open>for section_number in sorted(parsed)\<close> at lines 605 to 638.\<close>

definition story_node :: "int \<Rightarrow> parsed_section \<Rightarrow> node" where
  "story_node n payload =
     (let cs = map (\<lambda>c. \<lparr>choice_text = take 60 (label c), next_id = section_id (destination c)\<rparr>)
                 (take 4 (sec_choices payload));
          node_type0 = (case sec_node_type payload of None \<Rightarrow> ''normal'' | Some t \<Rightarrow> t);
          node_type1 = (if node_type0 \<notin> set VALID_NODE_TYPES
                        then infer_node_type (sec_text payload) (cs \<noteq> []) else node_type0);
          node_type2 = (if cs \<noteq> [] then ''normal'' else node_type1);
          default_title = ''Section '' @ str_int n;
          title0 = strip (case sec_title payload of None \<Rightarrow> default_title | Some t \<Rightarrow> t);
          text0 = strip (sec_text payload)
      in \<lparr>node_id = section_id n, node_number = n,
          title = (if title0 = [] then default_title else title0),
          node_text = (if text0 = [] then not_found_text n else text0),
          node_type = node_type2, choices = cs\<rparr>)"

text \<open>Lines 644 to 655: "Ensure at least one win ending for runtime requirements."\<close>

definition cue_ending :: "node \<Rightarrow> bool" where
  "cue_ending n =
     (node_type n = ''ending_neutral'' \<and> contains ''the end'' (lower (node_text n)) \<and>
      list_ex (\<lambda>term. contains term (lower (node_text n)))
        [''return'', ''survive'', ''find'', ''worth''])"

definition ensure_win :: "node list \<Rightarrow> node list" where
  "ensure_win nodes =
     (if \<not> list_ex is_win nodes then
        let nodes1 = promote_first cue_ending nodes in
        if \<not> list_ex is_win nodes1
        then promote_first (\<lambda>n. node_type n = ''ending_neutral'') nodes1
        else nodes1
      else nodes)"

text \<open>
  \<^verbatim>\<open>build_story\<close> from line 574 on, as a function of the dictionary \<^verbatim>\<open>parsed\<close> and of
  the \<^verbatim>\<open>link_changes\<close> that the page-reading part above it has produced.
\<close>

definition build_story :: "(int \<times> parsed_section) list \<Rightarrow> string list \<Rightarrow> node list \<times> string list" where
  "build_story parsed0 changes0 =
     (case repair_links parsed0 changes0 of (parsed1, changes) \<Rightarrow>
        (ensure_win (entry_first (map (\<lambda>(n, payload). story_node n payload) (sort_key fst parsed1))),
         changes))"

section \<open>Node building in build\_story.py\<close>

text \<open>
  \<^verbatim>\<open>clean_body\<close> and \<^verbatim>\<open>infer_title\<close> are text filters built from regular
  expressions and keyword lists; they only feed the \<^verbatim>\<open>text\<close> and \<^verbatim>\<open>title\<close> of a
  node. They are parameters here, so every statement below holds whatever they compute.
\<close>

definition build_story_node ::
    "(string \<Rightarrow> string) \<Rightarrow> (string \<Rightarrow> string) \<Rightarrow> parsed_section \<Rightarrow> node" where
  "build_story_node clean_body infer_title sec =
     (let n = section_number sec;
          cleaned = clean_body (sec_text sec);
          ttl = infer_title (if cleaned \<noteq> [] then cleaned else sec_text sec);
          choices_out =
            map (\<lambda>c. let label0 = join '' '' (split_ws (label c) []);
                         label1 = (if label0 = [] then ''Go to section '' @ str_int (destination c)
                                   else label0)
                     in \<lparr>choice_text = take 60 label1, next_id = section_id (destination c)\<rparr>)
                (take 4 (sec_choices sec));
          node_type0 = (case sec_node_type sec of None \<Rightarrow> ''normal'' | Some t \<Rightarrow> t);
          node_type1 =
            (if choices_out \<noteq> [] then ''normal''
             else if node_type0 \<notin> set [''ending_win'', ''ending_death'', ''ending_neutral'']
             then ''ending_neutral'' else node_type0);
          stripped = strip (sec_text sec);
          body_text = (if cleaned \<noteq> [] then cleaned
                       else if stripped \<noteq> [] then stripped else not_found_text n)
      in \<lparr>node_id = section_id n, node_number = n, title = ttl, node_text = body_text,
          node_type = node_type1, choices = choices_out\<rparr>)"

definition build_story_nodes ::
    "(string \<Rightarrow> string) \<Rightarrow> (string \<Rightarrow> string) \<Rightarrow> parsed_section list \<Rightarrow> node list" where
  "build_story_nodes clean_body infer_title sections =
     map (build_story_node clean_body infer_title) (sort_key section_number sections)"

text \<open>\<^verbatim>\<open>main\<close> of \<^verbatim>\<open>build_story.py\<close> between reading the parsed file and writing the story.\<close>

definition build_story_main ::
    "(string \<Rightarrow> string) \<Rightarrow> (string \<Rightarrow> string) \<Rightarrow> parsed_section list \<Rightarrow> node list \<times> string list" where
  "build_story_main clean_body infer_title sections =
     (case fix_broken_links sections of (fixed_sections, report_lines) \<Rightarrow>
        (entry_first (build_story_nodes clean_body infer_title fixed_sections), report_lines))"

section \<open>The scenarios of the specification\<close>

text \<open>
  Scenario B: sections 1, 2, 3 and 7, section 1 with a choice to the missing section 5.
  Scenario C: section 1 with a choice to the missing section 50. Each as the parsed list
  that \<^verbatim>\<open>build_story.py\<close> reads and as the dictionary \<^verbatim>\<open>parsed\<close> of
  \<^verbatim>\<open>repair_story_text.py\<close>.
\<close>

definition fork :: "int \<Rightarrow> int \<Rightarrow> parsed_section" where
  "fork n dest =
     \<lparr>section_number = n, sec_title = Some ''Forest Road'',
      sec_text = ''A fork in the forest road.'',
      sec_choices = [\<lparr>label = ''Take the left path.'', destination = dest\<rparr>],
      sec_node_type = Some ''normal''\<rparr>"

definition glade :: "int \<Rightarrow> parsed_section" where
  "glade n =
     \<lparr>section_number = n, sec_title = Some ''Forest Road'',
      sec_text = ''A quiet glade in the forest.'', sec_choices = [],
      sec_node_type = Some ''ending_neutral''\<rparr>"

definition scenario_B :: "parsed_section list" where
  "scenario_B = [fork 1 5, glade 2, glade 3, glade 7]"

definition scenario_B_parsed :: "(int \<times> parsed_section) list" where
  "scenario_B_parsed = [(1, fork 1 5), (2, glade 2), (3, glade 3), (7, glade 7)]"

definition scenario_C :: "parsed_section list" where
  "scenario_C = [fork 1 50]"

definition scenario_C_parsed :: "(int \<times> parsed_section) list" where
  "scenario_C_parsed = [(1, fork 1 50)]"

section \<open>The auto-fixer of validate.py\<close>

datatype py_error = ValueError

text \<open>\<^verbatim>\<open>infer_node_type\<close> of \<^verbatim>\<open>validate.py\<close>, which has keyword lists of its own.\<close>

definition infer_node_type_validate :: "node \<Rightarrow> string" where
  "infer_node_type_validate n =
     (if choices n \<noteq> [] then ''normal''
      else
        let txt = lower (node_text n) in
        if list_ex (\<lambda>k. contains k txt)
             [''death'', ''die'', ''died'', ''killed'', ''fail'', ''failed'']
        then ''ending_death''
        else if list_ex (\<lambda>k. contains k txt)
             [''win'', ''won'', ''escape'', ''success'', ''triumph'', ''victory'']
        then ''ending_win''
        else ''ending_neutral'')"

text \<open>"Remove duplicate IDs by keeping first": a node without an id is dropped too.\<close>

fun dedupe_ids :: "node list \<Rightarrow> string list \<Rightarrow> node list" where
  "dedupe_ids [] seen = []"
| "dedupe_ids (n # ns) seen =
     (if node_id n = [] \<or> node_id n \<in> set seen then dedupe_ids ns seen
      else n # dedupe_ids ns (seen @ [node_id n]))"

text \<open>
  The body of the first \<^verbatim>\<open>for node in nodes\<close>. The default of
  \<^verbatim>\<open>node.setdefault("section_number", int(str(node["id"]).split("_")[-1]))\<close> is computed
  before \<^verbatim>\<open>setdefault\<close> looks at the node, so an id whose last segment is no integer
  raises \<^verbatim>\<open>ValueError\<close> although the stored nodes carry their number. Lines 115 to 118
  then settle the node type.
\<close>

definition fix_node :: "node \<Rightarrow> py_error + node" where
  "fix_node n =
     (case int_literal (last_segment (node_id n)) of
        None \<Rightarrow> Inl ValueError
      | Some default_number \<Rightarrow>
          Inr (if node_type n \<notin> set VALID_NODE_TYPES
               then n\<lparr>node_type := infer_node_type_validate n\<rparr>
               else if choices n \<noteq> [] then n\<lparr>node_type := ''normal''\<rparr>
               else n))"

fun fix_nodes :: "node list \<Rightarrow> py_error + node list" where
  "fix_nodes [] = Inr []"
| "fix_nodes (n # ns) =
     (case fix_node n of
        Inl e \<Rightarrow> Inl e
      | Inr n' \<Rightarrow> (case fix_nodes ns of Inl e \<Rightarrow> Inl e | Inr ns' \<Rightarrow> Inr (n' # ns')))"

text \<open>The second loop: the ids that some choice names and no node has; labels are cut to 60.\<close>

definition missing_ids :: "string list \<Rightarrow> node list \<Rightarrow> string list" where
  "missing_ids id_set nodes =
     remdups (filter (\<lambda>nxt. nxt \<notin> set id_set) (concat (map (\<lambda>n. map next_id (choices n)) nodes)))"

definition cut_labels :: "node \<Rightarrow> node" where
  "cut_labels n = n\<lparr>choices := map (\<lambda>c. c\<lparr>choice_text := take 60 (choice_text c)\<rparr>) (choices n)\<rparr>"

definition stub_node :: "string \<Rightarrow> int \<Rightarrow> node" where
  "stub_node missing sec_no =
     \<lparr>node_id = missing, node_number = sec_no, title = ''Missing Source Section'',
      node_text = not_found_text sec_no, node_type = ''ending_neutral'', choices = []\<rparr>"

text \<open>\<^verbatim>\<open>for missing in sorted(missing_ids)\<close>, with the counter \<^verbatim>\<open>next_auto\<close>.\<close>

fun make_stubs :: "string list \<Rightarrow> int \<Rightarrow> node list" where
  "make_stubs [] next_auto = []"
| "make_stubs (missing # ms) next_auto =
     (if startswith missing ''section_'' \<and> str_isdigit (last_segment missing)
      then stub_node missing (py_int (last_segment missing)) # make_stubs ms next_auto
      else stub_node missing next_auto # make_stubs ms (next_auto + 1))"

definition max_number :: "node list \<Rightarrow> int" where
  "max_number nodes = fold max (map node_number nodes) (node_number (hd nodes))"

definition add_stubs :: "string list \<Rightarrow> node list \<Rightarrow> node list" where
  "add_stubs missing nodes =
     (if missing \<noteq> [] then
        nodes @ make_stubs (sort missing) (if nodes \<noteq> [] then max_number nodes + 1 else 1)
      else nodes)"

definition victory_node :: node where
  "victory_node =
     \<lparr>node_id = ''section_999'', node_number = 999, title = ''Final Triumphant Escape'',
      node_text = ''You survive and escape. Victory is yours.'', node_type = ''ending_win'',
      choices = []\<rparr>"

text \<open>"Guarantee at least one win ending."\<close>

definition guarantee_win :: "node list \<Rightarrow> node list" where
  "guarantee_win nodes =
     (if \<not> list_ex is_win nodes then
        if list_ex (\<lambda>n. node_type n = ''ending_neutral'' \<and> choices n = []) nodes
        then promote_first (\<lambda>n. node_type n = ''ending_neutral'' \<and> choices n = []) nodes
        else nodes @ [victory_node]
      else nodes)"

definition auto_fix :: "node list \<Rightarrow> py_error + node list" where
  "auto_fix nodes0 =
     (let deduped = dedupe_ids nodes0 [];
          id_set = map node_id deduped
      in case fix_nodes deduped of
           Inl e \<Rightarrow> Inl e
         | Inr nodes \<Rightarrow>
             Inr (entry_first
                    (guarantee_win (add_stubs (missing_ids id_set nodes) (map cut_labels nodes)))))"

section \<open>Stored stories used as examples\<close>

text \<open>
  A story whose only choice leads to the id \<^verbatim>\<open>cave\<close>; a story of one node typed
  \<^verbatim>\<open>normal\<close> that has no choices; a story of two neutral endings, the second of which
  carries the cue words; the text of a death ending.
\<close>

definition cave_story :: "node list" where
  "cave_story =
     [\<lparr>node_id = ''section_1'', node_number = 1, title = ''Forest Road'',
       node_text = ''A fork in the forest road.'', node_type = ''normal'',
       choices = [\<lparr>choice_text = ''Enter the cave.'', next_id = ''cave''\<rparr>]\<rparr>]"

definition bare_normal_story :: "node list" where
  "bare_normal_story =
     [\<lparr>node_id = ''section_1'', node_number = 1, title = ''Forest Road'',
       node_text = ''A fork in the forest road.'', node_type = ''normal'', choices = []\<rparr>]"

definition quiet_ending :: node where
  "quiet_ending =
     \<lparr>node_id = ''section_2'', node_number = 2, title = ''Forest Road'',
      node_text = ''A quiet glade in the forest.'', node_type = ''ending_neutral'', choices = []\<rparr>"

definition cue_ending_node :: node where
  "cue_ending_node =
     \<lparr>node_id = ''section_3'', node_number = 3, title = ''Forest Road'',
      node_text = ''You return home and survive. The End.'', node_type = ''ending_neutral'',
      choices = []\<rparr>"

definition doomed_parsed :: "(int \<times> parsed_section) list" where
  "doomed_parsed =
     [(1, \<lparr>section_number = 1, sec_title = Some ''Forest Road'',
           sec_text = ''The wolves close in and you are killed. The End.'', sec_choices = [],
           sec_node_type = Some ''ending_death''\<rparr>)]"

section \<open>The node invariants as the specification words them\<close>

text \<open>
  "\<^verbatim>\<open>id == "section_" + str(section_number)\<close>" and "\<^verbatim>\<open>node_type == normal\<close> iff
  \<^verbatim>\<open>choices\<close> is non-empty".
\<close>

definition canonical_id :: "node \<Rightarrow> bool" where
  "canonical_id n = (node_id n = ''section_'' @ str_int (node_number n))"

definition normal_iff_choices :: "node \<Rightarrow> bool" where
  "normal_iff_choices n = ((node_type n = ''normal'') = (choices n \<noteq> []))"

text \<open>
  What line 476 of \<^verbatim>\<open>repair_story_text.py\<close> gives every payload that
  \<^verbatim>\<open>extract_section_payload\<close> returns: its type is inferred from its text and from
  whether it has choices.
\<close>

definition typed_payload :: "parsed_section \<Rightarrow> bool" where
  "typed_payload p =
     (sec_node_type p = Some (infer_node_type (sec_text p) (sec_choices p \<noteq> [])))"

text \<open>The weaker fact that the repair keeps: a payload without choices is not typed normal.\<close>

definition no_bare_normal :: "parsed_section \<Rightarrow> bool" where
  "no_bare_normal p =
     (sec_choices p = [] \<longrightarrow> sec_node_type p \<noteq> None \<and> sec_node_type p \<noteq> Some ''normal'')"

section \<open>The story linter (lint\_story.py)\<close>

text \<open>
  \<^verbatim>\<open>re.sub(r"[^a-z0-9]+", " ", text.lower()).strip()\<close>: every maximal run of characters
  other than lower-case letters and digits becomes one space. \<open>in_run\<close> tells that the
  character before was part of such a run.
\<close>

definition is_lower_alnum :: "char \<Rightarrow> bool" where
  "is_lower_alnum c = (c \<in> set ''abcdefghijklmnopqrstuvwxyz0123456789'')"

fun collapse_runs :: "string \<Rightarrow> bool \<Rightarrow> string" where
  "collapse_runs [] in_run = []"
| "collapse_runs (c # s) in_run =
     (if is_lower_alnum c then c # collapse_runs s False
      else if in_run then collapse_runs s True
      else CHR '' '' # collapse_runs s True)"

definition normalize_choice_text :: "string \<Rightarrow> string" where
  "normalize_choice_text t = strip (collapse_runs (lower t) False)"

definition choice_key :: "choice \<Rightarrow> string \<times> string" where
  "choice_key c = (normalize_choice_text (choice_text c), next_id c)"

text \<open>The inner loop of \<^verbatim>\<open>choice_duplicates\<close> for the node with id \<open>nid\<close>.\<close>

fun dup_scan :: "string \<Rightarrow> choice list \<Rightarrow> (string \<times> string) list \<Rightarrow> (string \<times> string \<times> string) list" where
  "dup_scan nid [] seen = []"
| "dup_scan nid (c # cs) seen =
     (if choice_key c \<in> set seen then (nid, choice_text c, next_id c) # dup_scan nid cs seen
      else dup_scan nid cs (seen @ [choice_key c]))"

definition choice_duplicates :: "node list \<Rightarrow> (string \<times> string \<times> string) list" where
  "choice_duplicates nodes = concat (map (\<lambda>n. dup_scan (node_id n) (choices n) []) nodes)"

text \<open>
  The inner loop of \<^verbatim>\<open>fix_duplicate_choices\<close>: it threads the list \<^verbatim>\<open>unique\<close>, the
  set \<^verbatim>\<open>seen\<close> and the counter \<^verbatim>\<open>removed\<close>.
\<close>

fun unique_scan :: "choice list \<Rightarrow> choice list \<Rightarrow> (string \<times> string) list \<Rightarrow> nat \<Rightarrow> choice list \<times> nat" where
  "unique_scan [] unique seen removed = (unique, removed)"
| "unique_scan (c # cs) unique seen removed =
     (if choice_key c \<in> set seen then unique_scan cs unique seen (removed + 1)
      else unique_scan cs (unique @ [c]) (seen @ [choice_key c]) removed)"

text \<open>The outer loop: each node gets \<^verbatim>\<open>unique[:4]\<close>; the result is the count and the nodes.\<close>

fun fix_duplicates_loop :: "node list \<Rightarrow> nat \<Rightarrow> node list \<times> nat" where
  "fix_duplicates_loop [] removed = ([], removed)"
| "fix_duplicates_loop (n # ns) removed =
     (case unique_scan (choices n) [] [] removed of (unique, removed') \<Rightarrow>
        (case fix_duplicates_loop ns removed' of (ns', removed'') \<Rightarrow>
           (n\<lparr>choices := take 4 unique\<rparr> # ns', removed'')))"

definition fix_duplicate_choices :: "node list \<Rightarrow> nat \<times> node list" where
  "fix_duplicate_choices nodes =
     (case fix_duplicates_loop nodes 0 of (nodes', removed) \<Rightarrow> (removed, nodes'))"

text \<open>
  \<^verbatim>\<open>reachable_ratio\<close>. The graph maps an id to the \<^verbatim>\<open>next\<close> ids that exist; a later
  node with the same id replaces an earlier one. \<open>visit\<close> is the loop over the successors
  of the current node, \<open>bfs\<close> the loop over the queue.
\<close>

definition graph_of :: "node list \<Rightarrow> (string \<times> string list) list" where
  "graph_of nodes =
     foldl (\<lambda>graph n.
              AList.update (node_id n)
                (filter (\<lambda>nxt. nxt \<in> node_id ` set nodes) (map next_id (choices n))) graph)
       [] nodes"

fun visit :: "string list \<Rightarrow> string list \<Rightarrow> string list \<Rightarrow> string list \<times> string list" where
  "visit [] seen q = (seen, q)"
| "visit (nxt # rest) seen q =
     (if nxt \<notin> set seen then visit rest (seen @ [nxt]) (q @ [nxt]) else visit rest seen q)"

function bfs :: "(string \<times> string list) list \<Rightarrow> string list \<Rightarrow> string list \<Rightarrow> string list" where
  "bfs graph [] seen = seen"
| "bfs graph (cur # q) seen =
     (case visit (case map_of graph cur of None \<Rightarrow> [] | Some nexts \<Rightarrow> nexts) seen q of
        (seen', q') \<Rightarrow> bfs graph q' seen')"
  by pat_completeness auto
termination
proof (relation "measures [\<lambda>(graph, q, seen). card (set (concat (map snd graph)) - set seen),
                           \<lambda>(graph, q, seen). length q]")
  show "wf (measures [\<lambda>(graph, q, seen). card (set (concat (map snd graph)) - set seen),
                      \<lambda>(graph, q, seen). length q])"
    by simp
next
  fix graph :: "(string \<times> string list) list" and cur q seen seen' q'
  assume r: "(seen', q') =
      visit (case map_of graph cur of None \<Rightarrow> [] | Some nexts \<Rightarrow> nexts) seen q"
  let ?nexts = "case map_of graph cur of None \<Rightarrow> [] | Some nexts \<Rightarrow> nexts"
  let ?U = "set (concat (map snd graph))"
  have visit_grows:
    "(s' = s \<and> p' = p)
     \<or> (set s \<subseteq> set s' \<and> set s' \<subseteq> set s \<union> set nx \<and> (\<exists>a\<in>set s'. a \<notin> set s))"
    if "visit nx s p = (s', p')" for nx s p s' p'
    using that
  proof (induction nx arbitrary: s p)
    case Nil
    then show ?case by simp
  next
    case (Cons a nx)
    show ?case
    proof (cases "a \<in> set s")
      case True
      with Cons.prems have "visit nx s p = (s', p')" by simp
      from Cons.IH [OF this] show ?thesis by auto
    next
      case False
      with Cons.prems have "visit nx (s @ [a]) (p @ [a]) = (s', p')" by simp
      from Cons.IH [OF this]
      have "set (s @ [a]) \<subseteq> set s' \<and> set s' \<subseteq> set (s @ [a]) \<union> set nx" by auto
      then have "set s \<subseteq> set s'" "set s' \<subseteq> set s \<union> set (a # nx)" "a \<in> set s'"
        by auto
      with False show ?thesis by blast
    qed
  qed
  have sub: "set ?nexts \<subseteq> ?U"
  proof (cases "map_of graph cur")
    case None
    then show ?thesis by simp
  next
    case (Some nexts)
    then have "(cur, nexts) \<in> set graph" by (rule map_of_SomeD)
    with Some show ?thesis by force
  qed
  from r have "visit ?nexts seen q = (seen', q')" by simp
  from visit_grows [OF this]
  show "((graph, q', seen'), (graph, cur # q, seen))
          \<in> measures [\<lambda>(graph, q, seen). card (set (concat (map snd graph)) - set seen),
                       \<lambda>(graph, q, seen). length q]"
  proof (elim disjE)
    assume "seen' = seen \<and> q' = q"
    then show ?thesis by simp
  next
    assume g: "set seen \<subseteq> set seen' \<and> set seen' \<subseteq> set seen \<union> set ?nexts
        \<and> (\<exists>a\<in>set seen'. a \<notin> set seen)"
    then obtain a where a: "a \<in> set seen'" "a \<notin> set seen" by blast
    with g sub have "a \<in> ?U - set seen" by blast
    moreover from a have "a \<notin> ?U - set seen'" by simp
    moreover from g have "?U - set seen' \<subseteq> ?U - set seen" by blast
    ultimately have "?U - set seen' \<subset> ?U - set seen" by blast
    then have "card (?U - set seen') < card (?U - set seen)"
      by (intro psubset_card_mono) simp_all
    then show ?thesis by simp
  qed
qed

definition reachable_ratio :: "node list \<Rightarrow> rat \<times> nat \<times> nat" where
  "reachable_ratio nodes =
     (if nodes = [] then (0, 0, 0)
      else
        let entry = node_id (hd nodes);
            seen = bfs (graph_of nodes) [entry] [entry]
        in (of_nat (length seen) / of_nat (length nodes), length seen, length nodes))"

text \<open>
  \<^verbatim>\<open>max_noise_ratio\<close>. The allowed characters are the ASCII letters and digits and the
  punctuation of the source's literal, given here by code point; the pound sign is code
  163, and the euro sign lies beyond the characters of this model.
\<close>

definition allowed :: "char list" where
  "allowed =
     ''abcdefghijklmnopqrstuvwxyzABCDEFGHIJKLMNOPQRSTUVWXYZ0123456789''
     @ map char_of [32, 9, 10, 13, 46, 44, 33, 63, 59, 58, 39, 34, 40, 41, 45, 91, 93, 123, 125,
         95, 47, 92, 64, 35, 36, 37, 94, 38, 42, 43, 61, 60, 62, 124, 96, 126, 163 :: nat]"

fun noise_scan :: "node list \<Rightarrow> rat \<Rightarrow> string \<Rightarrow> rat \<times> string" where
  "noise_scan [] max_ratio max_node = (max_ratio, max_node)"
| "noise_scan (n # ns) max_ratio max_node =
     (if node_text n = [] then noise_scan ns max_ratio max_node
      else
        let bad = length (filter (\<lambda>ch. ch \<notin> set allowed) (node_text n));
            ratio = of_nat bad / of_nat (length (node_text n))
        in if ratio > max_ratio then noise_scan ns ratio (node_id n)
           else noise_scan ns max_ratio max_node)"

definition max_noise_ratio :: "node list \<Rightarrow> rat \<times> string" where
  "max_noise_ratio nodes = noise_scan nodes 0 []"

text \<open>
  \<^verbatim>\<open>main\<close>. What it finds at the story path is a \<open>store\<close>; what it prints is a list
  of lines, each an error, the notice of a fix, or the verdict of one check (the numbers
  that a line quotes are left out); what it returns is the exit code of the process. The
  ratios are exact here, where the source has doubles.
\<close>

datatype store = Missing | Invalid_json | Not_a_list | Story "node list"

datatype load_error = File_not_found | Invalid_JSON | Root_not_list

datatype verdict = PASS | FAIL

datatype lint_check = Duplicate_choices | Reachable_ratio | Noise_ratio

datatype line = Error_line load_error | Fixed_line nat | Check_line verdict lint_check

record lint_args =
  min_reachable_ratio :: rat
  max_noise_ratio_arg :: rat
  fix_flag :: bool

record lint_result =
  printed :: "line list"
  exit_code :: int
  written :: "node list option"

definition lint_checks :: "lint_args \<Rightarrow> node list \<Rightarrow> line list \<times> bool" where
  "lint_checks args nodes =
     (let duplicates = choice_duplicates nodes;
          ratio = fst (reachable_ratio nodes);
          noise_ratio = fst (max_noise_ratio nodes);
          line1 = (if duplicates \<noteq> [] then Check_line FAIL Duplicate_choices
                   else Check_line PASS Duplicate_choices);
          line2 = (if ratio < min_reachable_ratio args then Check_line FAIL Reachable_ratio
                   else Check_line PASS Reachable_ratio);
          line3 = (if noise_ratio > max_noise_ratio_arg args then Check_line FAIL Noise_ratio
                   else Check_line PASS Noise_ratio);
          failed = (duplicates \<noteq> [] \<or> ratio < min_reachable_ratio args
                    \<or> noise_ratio > max_noise_ratio_arg args)
      in ([line1, line2, line3], failed))"

definition lint_main :: "lint_args \<Rightarrow> store \<Rightarrow> lint_result" where
  "lint_main args st =
     (case st of
        Missing \<Rightarrow> \<lparr>printed = [Error_line File_not_found], exit_code = 2, written = None\<rparr>
      | Invalid_json \<Rightarrow> \<lparr>printed = [Error_line Invalid_JSON], exit_code = 2, written = None\<rparr>
      | Not_a_list \<Rightarrow> \<lparr>printed = [Error_line Root_not_list], exit_code = 2, written = None\<rparr>
      | Story nodes0 \<Rightarrow>
          let (removed, nodes1) = (if fix_flag args then fix_duplicate_choices nodes0 else (0, nodes0));
              fixed_lines = (if fix_flag args \<and> removed \<noteq> 0 then [Fixed_line removed] else []);
              stored = (if fix_flag args \<and> removed \<noteq> 0 then Some nodes1 else None)
          in case lint_checks args nodes1 of (check_lines, failed) \<Rightarrow>
               \<lparr>printed = fixed_lines @ check_lines,
                exit_code = (if failed then 1 else 0), written = stored\<rparr>)"

definition is_check_line :: "line \<Rightarrow> bool" where
  "is_check_line l = (case l of Check_line v c \<Rightarrow> True | _ \<Rightarrow> False)"

definition verdict_of :: "bool \<Rightarrow> verdict" where
  "verdict_of ok = (if ok then PASS else FAIL)"

text \<open>Scenario E: two choices with the normalized label "go north" and the same target.\<close>

definition scenario_E :: "node list" where
  "scenario_E =
     [\<lparr>node_id = ''section_1'', node_number = 1, title = ''Forest Road'',
       node_text = ''A fork in the forest road.'', node_type = ''normal'',
       choices = [\<lparr>choice_text = ''Go north'', next_id = ''section_2''\<rparr>,
                  \<lparr>choice_text = ''go  NORTH!'', next_id = ''section_2''\<rparr>]\<rparr>,
      \<lparr>node_id = ''section_2'', node_number = 2, title = ''Forest Road'',
       node_text = ''A quiet glade in the forest.'', node_type = ''ending_win'', choices = []\<rparr>]"

section \<open>The runtime story engine (story.py)\<close>

text \<open>
  \<^verbatim>\<open>_normalize_node\<close> accepts any JSON object. What it reads of a raw node is: the
  strings \<^verbatim>\<open>str(raw.get(key, default))\<close> for the id, the title, the text and the node
  type; the integer that \<^verbatim>\<open>_as_int\<close> makes of the section number, if it makes one; and
  the list of choices, if \<^verbatim>\<open>choices\<close> is a list. Of a raw choice it reads whether it is a
  mapping, \<^verbatim>\<open>str(choice.get("next", ""))\<close> and the text, if there is one.
\<close>

datatype raw_choice = Not_a_mapping | Raw_choice (raw_next: string) (raw_label: "string option")

record raw_node =
  raw_id :: string
  raw_section_number :: "int option"
  raw_title :: string
  raw_text :: string
  raw_node_type :: string
  raw_choices :: "raw_choice list option"

definition as_int :: "int option \<Rightarrow> int \<Rightarrow> int" where
  "as_int v default_value = (case v of Some i \<Rightarrow> i | None \<Rightarrow> default_value)"

text \<open>
  The loop over \<^verbatim>\<open>choices_raw[:4]\<close>: a choice that is appended and found to repeat a
  key is popped again, so it is appended here only when its key is new.
\<close>

fun normalize_choices :: "raw_choice list \<Rightarrow> choice list \<Rightarrow> (string \<times> string) list \<Rightarrow> choice list" where
  "normalize_choices [] acc seen_choices = acc"
| "normalize_choices (Not_a_mapping # rest) acc seen_choices = normalize_choices rest acc seen_choices"
| "normalize_choices (Raw_choice nxt lbl # rest) acc seen_choices =
     (let next_id' = strip nxt in
      if next_id' = [] then normalize_choices rest acc seen_choices
      else
        let stripped = strip (case lbl of None \<Rightarrow> ''Continue'' | Some t \<Rightarrow> t);
            choice_text' = (if stripped = [] then ''Continue'' else stripped);
            dedupe_key = (normalize_choice_text choice_text', next_id')
        in if dedupe_key \<in> set seen_choices then normalize_choices rest acc seen_choices
           else normalize_choices rest
                  (acc @ [\<lparr>choice_text = choice_text', next_id = next_id'\<rparr>])
                  (seen_choices @ [dedupe_key]))"

definition normalize_node :: "raw_node \<Rightarrow> node" where
  "normalize_node raw =
     (let id0 = strip (raw_id raw);
          number0 = as_int (raw_section_number raw) 0;
          node_id' = (if id0 = [] then (if number0 > 0 then ''section_'' @ str_int number0
                                        else ''section_0'')
                      else id0);
          number1 = (if number0 \<le> 0 \<and> startswith node_id' ''section_''
                     then as_int (int_literal (last_segment node_id')) 0 else number0);
          cs = (case raw_choices raw of
                  None \<Rightarrow> []
                | Some choices_raw \<Rightarrow> normalize_choices (take 4 choices_raw) [] []);
          type0 = strip (raw_node_type raw);
          type1 = (if type0 = [] then ''normal'' else type0);
          type2 = (if type1 \<notin> set [''normal'', ''ending_win'', ''ending_death'', ''ending_neutral'']
                   then (if cs \<noteq> [] then ''normal'' else ''ending_neutral'') else type1);
          type3 = (if type2 = ''normal'' \<and> cs = [] then ''ending_neutral'' else type2);
          title0 = strip (raw_title raw)
      in \<lparr>node_id = node_id', node_number = (if number1 > 0 then number1 else 0),
          title = (if title0 = [] then ''Untitled Scene'' else title0),
          node_text = raw_text raw, node_type = type3, choices = cs\<rparr>)"

definition default_story :: "node list" where
  "default_story =
     [\<lparr>node_id = ''section_1'', node_number = 1, title = ''Cold Start'',
       node_text = ''No story file was found. Add story.json to continue.'',
       node_type = ''ending_neutral'', choices = []\<rparr>]"

text \<open>
  The engine after \<^verbatim>\<open>load\<close>. The data is \<open>None\<close> when the file is missing or
  unreadable or holds no list; an entry of the list is \<open>None\<close> when it is no object.
\<close>

record engine =
  engine_nodes :: "node list"
  node_by_id :: "(string \<times> node) list"

definition load :: "raw_node option list option \<Rightarrow> engine" where
  "load data =
     (let nodes0 =
            (case data of
               None \<Rightarrow> default_story
             | Some entries \<Rightarrow>
                 if entries = [] then default_story
                 else
                   let normalized = map normalize_node (List.map_filter (\<lambda>e. e) entries);
                       kept = filter (\<lambda>n. node_id n \<noteq> []) normalized
                   in if kept = [] then default_story else kept);
          by_id = foldl (\<lambda>m n. AList.update (node_id n) n m) [] nodes0
      in \<lparr>engine_nodes = sort_key (\<lambda>n. (node_number n, node_id n)) nodes0, node_by_id = by_id\<rparr>)"

definition get_node :: "engine \<Rightarrow> string \<Rightarrow> node option" where
  "get_node e wanted = map_of (node_by_id e) wanted"

definition get_entry_node :: "engine \<Rightarrow> node" where
  "get_entry_node e =
     (case map_of (node_by_id e) ''section_1'' of
        Some n \<Rightarrow> n
      | None \<Rightarrow> (case engine_nodes e of n # rest \<Rightarrow> n | [] \<Rightarrow> hd default_story))"

text \<open>A node typed normal that has no choices: what the engine must never hand out.\<close>

definition softlock :: "node \<Rightarrow> bool" where
  "softlock n = (node_type n = ''normal'' \<and> choices n = [])"

text \<open>A stored story whose only node is declared normal and whose only choice has no target.\<close>

definition malformed_story :: "raw_node option list" where
  "malformed_story =
     [Some \<lparr>raw_id = ''section_4'', raw_section_number = Some 4, raw_title = ''Forest Road'',
            raw_text = ''A fork in the forest road.'', raw_node_type = ''normal'',
            raw_choices = Some [Raw_choice [] (Some ''Take the left path.''), Not_a_mapping]\<rparr>]"

section \<open>Invariants used in the proofs\<close>

text \<open>
  An entry of \<^verbatim>\<open>by_num\<close> is in order when it names an object of the input list that
  carries the key as its number, or the stub for the key.
\<close>

definition ref_ok :: "int list \<Rightarrow> int \<times> sref \<Rightarrow> bool" where
  "ref_ok nums e = (case snd e of
       Obj i \<Rightarrow> i < length nums \<and> nums ! i = fst e
     | New s \<Rightarrow> s = stub_section (fst e))"

definition st_ok :: "int list \<Rightarrow> fix_state \<Rightarrow> bool" where
  "st_ok nums st =
     (fst ` set (by_num st) = set (existing st) \<and> (\<forall>e\<in>set (by_num st). ref_ok nums e))"

definition closed_in :: "repair_state \<Rightarrow> parsed_section \<Rightarrow> bool" where
  "closed_in st p = (\<forall>c\<in>set (sec_choices p). destination c \<in> set (existing_sections st))"

definition keys_ok :: "repair_state \<Rightarrow> bool" where
  "keys_ok st = (fst ` set (parsed st) = set (existing_sections st))"

text \<open>A node with its type blanked: what the win guarantee leaves untouched.\<close>

definition untyped :: "node \<Rightarrow> node" where
  "untyped n = n\<lparr>node_type := []\<rparr>"

section \<open>Rendering and reading integers\<close>


lemma of_char_digit_char: "d < 10 \<Longrightarrow> of_char (digit_char d) = (48 + d :: nat)"
  by (simp add: digit_char_def)

lemma digit_codes:
  "char_of (48 :: nat) = CHR ''0''" "char_of (49 :: nat) = CHR ''1''"
  "char_of (50 :: nat) = CHR ''2''" "char_of (51 :: nat) = CHR ''3''"
  "char_of (52 :: nat) = CHR ''4''" "char_of (53 :: nat) = CHR ''5''"
  "char_of (54 :: nat) = CHR ''6''" "char_of (55 :: nat) = CHR ''7''"
  "char_of (56 :: nat) = CHR ''8''" "char_of (57 :: nat) = CHR ''9''"
  by code_simp+

lemma isdigit_code: "isdigit c = (48 \<le> (of_char c :: nat) \<and> (of_char c :: nat) \<le> 57)"
proof
  assume "isdigit c"
  then show "48 \<le> (of_char c :: nat) \<and> (of_char c :: nat) \<le> 57"
    by (auto simp: isdigit_def)
next
  assume a: "48 \<le> (of_char c :: nat) \<and> (of_char c :: nat) \<le> 57"
  then have "(of_char c :: nat) \<in> {48, 49, 50, 51, 52, 53, 54, 55, 56, 57}" by (simp, arith)
  then have "char_of (of_char c :: nat) \<in> char_of ` {48, 49, 50, 51, 52, 53, 54, 55, 56, 57 :: nat}"
    by (rule imageI)
  then show "isdigit c" by (auto simp: isdigit_def digit_codes)
qed

lemma isdigit_digit_char: "d < 10 \<Longrightarrow> isdigit (digit_char d)"
  by (simp add: isdigit_code of_char_digit_char)

lemma digit_val_digit_char: "d < 10 \<Longrightarrow> digit_val (digit_char d) = int d"
  by (simp add: digit_val_def of_char_digit_char)

lemma nat_digits_digits: "list_all isdigit (nat_digits n) \<and> nat_digits n \<noteq> []"
proof (induction n rule: nat_digits.induct)
  case (1 n)
  show ?case
  proof (cases "n < 10")
    case True
    then show ?thesis by (subst nat_digits.simps, subst nat_digits.simps) (simp add: isdigit_digit_char)
  next
    case False
    with 1 show ?thesis
      by (subst nat_digits.simps, subst (2) nat_digits.simps) (simp add: isdigit_digit_char)
  qed
qed

lemma py_int_snoc: "py_int (s @ [c]) = 10 * py_int s + digit_val c"
  by (simp add: py_int_def)

lemma py_int_nat_digits: "py_int (nat_digits n) = int n"
proof (induction n rule: nat_digits.induct)
  case (1 n)
  show ?case
  proof (cases "n < 10")
    case True
    then show ?thesis by (subst nat_digits.simps) (simp add: py_int_def digit_val_digit_char)
  next
    case False
    with 1 have "py_int (nat_digits (n div 10)) = int (n div 10)" by simp
    moreover have "10 * int (n div 10) + int (n mod 10) = int n" by presburger
    ultimately show ?thesis using False
      by (subst nat_digits.simps) (simp add: py_int_snoc digit_val_digit_char)
  qed
qed

lemma not_space_digit: "isdigit c \<Longrightarrow> \<not> isspace c"
  by (auto simp: isdigit_code isspace_def)

lemma strip_id: "s \<noteq> [] \<Longrightarrow> \<not> isspace (hd s) \<Longrightarrow> \<not> isspace (last s) \<Longrightarrow> strip s = s"
proof -
  assume a: "s \<noteq> []" "\<not> isspace (hd s)" "\<not> isspace (last s)"
  then have "dropWhile isspace s = s" by (cases s) auto
  moreover have "dropWhile isspace (rev s) = rev s"
    using a by (cases "rev s") (auto simp: hd_rev)
  ultimately show ?thesis by (simp add: strip_def)
qed

lemma str_isdigit_nat_digits: "str_isdigit (nat_digits n)"
  using nat_digits_digits [of n] by (simp add: str_isdigit_def)

lemma digits_hd_last:
  assumes "list_all isdigit s" "s \<noteq> []"
  shows "isdigit (hd s)" "isdigit (last s)"
  using assms by (auto simp: list_all_iff)

lemma int_literal_str_int: "int_literal (str_int i) = Some i"
proof (cases "i < 0")
  case True
  let ?ds = "nat_digits (nat (- i))"
  note d = nat_digits_digits [of "nat (- i)"]
  have "\<not> isspace (CHR ''-'')" by (simp add: isspace_def)
  moreover have "\<not> isspace (last (CHR ''-'' # ?ds))"
    using d digits_hd_last(2) [of ?ds] by (simp add: not_space_digit)
  ultimately have "strip (CHR ''-'' # ?ds) = CHR ''-'' # ?ds"
    by (intro strip_id) simp_all
  with True show ?thesis
    by (simp add: int_literal_def str_int_def str_isdigit_nat_digits py_int_nat_digits)
next
  case False
  let ?ds = "nat_digits (nat i)"
  note d = nat_digits_digits [of "nat i"]
  from d obtain c r where cr: "?ds = c # r" by (cases ?ds) auto
  with d have c: "isdigit c" by simp
  then have nc: "c \<noteq> CHR ''-''" "c \<noteq> CHR ''+''" by (auto simp: isdigit_def)
  have "strip ?ds = ?ds"
    using d digits_hd_last [of ?ds] by (intro strip_id) (simp_all add: not_space_digit)
  with False cr nc str_isdigit_nat_digits [of "nat i"] py_int_nat_digits [of "nat i"]
  show ?thesis
    by (simp add: int_literal_def str_int_def)
qed

lemma no_underscore_str_int: "CHR ''_'' \<notin> set (str_int i)"
proof -
  have "CHR ''_'' \<notin> set (nat_digits n)" for n
    using nat_digits_digits [of n] by (auto simp: list_all_iff isdigit_def)
  then show ?thesis by (simp add: str_int_def)
qed

lemma last_segment_section_id: "last_segment (section_id i) = str_int i"
proof -
  have "takeWhile (\<lambda>c. c \<noteq> CHR ''_'') (rev (str_int i) @ rev ''section_'') = rev (str_int i)"
    using no_underscore_str_int [of i] by (subst takeWhile_append2) auto
  then show ?thesis by (simp add: last_segment_def section_id_def)
qed

lemma section_id_nonempty: "section_id i \<noteq> []"
  by (simp add: section_id_def)

section \<open>Properties of the OCR digit correction\<close>


lemma spec_digit_table:
  "spec_digit c = (if isdigit c then Some (digit_val c)
                   else map_option digit_val (map_of DIGIT_OCR_MAP c))"
  by (simp add: spec_digit_def DIGIT_OCR_MAP_def digit_val_def)

lemma py_int_decimal: "py_int s = decimal (map digit_val s)"
  by (simp add: py_int_def decimal_def foldl_map)

lemma ocr_char_val: "spec_digit c \<noteq> None \<Longrightarrow> digit_val (ocr_char c) = the (spec_digit c)"
  by (auto simp: spec_digit_table ocr_char_def split: if_splits)

lemma ocr_loop_all:
  "\<forall>c\<in>set t. spec_digit c \<noteq> None \<Longrightarrow> ocr_loop t acc = Some (acc @ map ocr_char t)"
proof (induction t arbitrary: acc)
  case Nil
  then show ?case by simp
next
  case (Cons c cs)
  then show ?case
    by (auto simp: spec_digit_table ocr_char_def split: if_splits)
qed

lemma ocr_loop_none:
  "\<exists>c\<in>set t. spec_digit c = None \<Longrightarrow> ocr_loop t acc = None"
proof (induction t arbitrary: acc)
  case Nil
  then show ?case by simp
next
  case (Cons c cs)
  show ?case
  proof (cases "spec_digit c = None")
    case True
    then show ?thesis by (simp add: spec_digit_table split: if_splits)
  next
    case False
    with Cons.prems have "\<exists>c\<in>set cs. spec_digit c = None" by auto
    then have "\<And>acc. ocr_loop cs acc = None" by (rule Cons.IH)
    then show ?thesis by (simp split: option.splits)
  qed
qed

lemma isdigit_spec: "isdigit c \<Longrightarrow> spec_digit c = Some (digit_val c)"
  by (simp add: spec_digit_def)

text \<open>
  Claim C7. For every destination token, \<^verbatim>\<open>token_to_int\<close> applies the fixed table
  character by character: when every character is a digit or maps through the table, the
  result is the integer whose decimal digits are the mapped characters; when some
  character has no mapping, there is no destination.
\<close>

theorem token_to_int_table:
  assumes "is_token t"
  shows "token_to_int t =
           (if \<forall>c\<in>set t. spec_digit c \<noteq> None
            then Some (decimal (map (the \<circ> spec_digit) t))
            else None)"
proof (cases "\<forall>c\<in>set t. spec_digit c \<noteq> None")
  case True
  from assms have ne: "t \<noteq> []" by (auto simp: is_token_def)
  have vals: "map digit_val (map ocr_char t) = map (the \<circ> spec_digit) t"
    using True by (simp add: ocr_char_val)
  show ?thesis
  proof (cases "str_isdigit t")
    case sd: True
    then have eq: "map digit_val t = map (the \<circ> spec_digit) t"
      by (auto simp: str_isdigit_def list_all_iff isdigit_spec)
    from sd have "token_to_int t = Some (decimal (map digit_val t))"
      by (simp add: token_to_int_def py_int_decimal)
    then show ?thesis
      unfolding eq using True by simp
  next
    case False
    with True ne have "token_to_int t = Some (decimal (map digit_val (map ocr_char t)))"
      by (simp add: token_to_int_def ocr_loop_all py_int_decimal)
    then show ?thesis
      unfolding vals using True by simp
  qed
next
  case False
  then have ex: "\<exists>c\<in>set t. spec_digit c = None" by simp
  then have "\<not> str_isdigit t"
    by (auto simp: str_isdigit_def list_all_iff isdigit_spec)
  with False ex show ?thesis
    by (simp add: token_to_int_def ocr_loop_none)
qed

theorem token_to_int_table_witness:
  "is_token ''1O5'' \<and> token_to_int ''1O5'' = Some 105 \<and>
   is_token ''to'' \<and> token_to_int ''to'' = None"
proof -
  have a: "is_token ''1O5''" and b: "is_token ''to''"
    by (simp_all add: is_token_def isalnum_ascii_def isdigit_def isalpha_ascii_def)
  show ?thesis
    using a b token_to_int_table [OF a] token_to_int_table [OF b]
    by (simp add: spec_digit_def isdigit_def decimal_def digit_val_def)
qed

section \<open>Properties of the link repair\<close>


lemma hd_sort_key_min:
  assumes "xs \<noteq> []"
  shows "hd (sort_key f xs) \<in> set xs \<and> (\<forall>x\<in>set xs. f (hd (sort_key f xs)) \<le> f x)"
proof -
  let ?ys = "sort_key f xs"
  from assms have ne: "?ys \<noteq> []" by (metis length_sort length_0_conv)
  then obtain y ys where ys: "?ys = y # ys" by (cases ?ys) auto
  have "sorted (map f ?ys)" by (rule sorted_sort_key)
  with ys have "\<forall>x\<in>set ys. f y \<le> f x" by simp
  moreover have "set ?ys = set xs" by simp
  ultimately show ?thesis using ys by (metis list.sel(1) list.set_intros(1) order_refl set_ConsD)
qed

lemma set_update_subset: "set (AList.update k v al) \<subseteq> insert (k, v) (set al)"
  by (induction al) auto

lemma fix_choice_ok:
  assumes "fix_choice src c st = (c', st')" and "st_ok nums st"
  shows "destination c' \<in> set (existing st')" and "set (existing st) \<subseteq> set (existing st')"
    and "st_ok nums st'"
proof -
  let ?dest = "destination c"
  let ?near = "filter (\<lambda>n. \<bar>n - ?dest\<bar> \<le> 2) (existing st)"
  consider (present) "?dest \<in> set (existing st)"
    | (remap) "?dest \<notin> set (existing st)" "?near \<noteq> []"
    | (stub) "?dest \<notin> set (existing st)" "?near = []" by blast
  then have "destination c' \<in> set (existing st') \<and> set (existing st) \<subseteq> set (existing st') \<and> st_ok nums st'"
  proof cases
    case present
    with assms show ?thesis by (simp add: fix_choice_def Let_def)
  next
    case remap
    let ?new = "hd (sort_key (\<lambda>n. choice_sort_key n ?dest) ?near)"
    from hd_sort_key_min [OF remap(2)]
    have new: "?new \<in> set (existing st)" by auto
    from remap assms(1) have c': "c' = c\<lparr>destination := ?new\<rparr>"
      and st': "st' = st\<lparr>report := report st @ [remapped_line ?dest ?new src]\<rparr>"
      by (auto simp: fix_choice_def Let_def)
    have "st_ok nums st'" using assms(2) unfolding st' st_ok_def by simp
    with new show ?thesis unfolding c' st' by simp
  next
    case stub
    with assms have c': "c' = c"
      and st': "st' = st\<lparr>by_num := AList.update ?dest (New (stub_section ?dest)) (by_num st),
              existing := existing st @ [?dest],
              report := report st @ [created_line ?dest src]\<rparr>"
      by (auto simp: fix_choice_def Let_def)
    have "ref_ok nums (?dest, New (stub_section ?dest))"
      by (simp add: ref_ok_def)
    with assms(2) set_update_subset [of ?dest "New (stub_section ?dest)" "by_num st"]
    have "\<forall>e\<in>set (by_num st'). ref_ok nums e"
      unfolding st' st_ok_def by auto
    moreover have "fst ` set (by_num st') = set (existing st')"
      using assms(2) unfolding st' st_ok_def by (simp add: dom_update)
    ultimately have "st_ok nums st'" by (simp add: st_ok_def)
    moreover have "destination c' \<in> set (existing st')" unfolding c' st' by simp
    moreover have "set (existing st) \<subseteq> set (existing st')" unfolding st' by auto
    ultimately show ?thesis by blast
  qed
  then show "destination c' \<in> set (existing st')" and "set (existing st) \<subseteq> set (existing st')"
    and "st_ok nums st'" by auto
qed

lemma fix_choices_ok:
  "fix_choices src cs st = (cs', st') \<Longrightarrow> st_ok nums st \<Longrightarrow>
     (\<forall>c\<in>set cs'. destination c \<in> set (existing st')) \<and> set (existing st) \<subseteq> set (existing st') \<and> st_ok nums st'"
proof (induction cs arbitrary: st cs' st')
  case Nil
  then show ?case by simp
next
  case (Cons c cs)
  obtain c1 st1 where s1: "fix_choice src c st = (c1, st1)" by (cases "fix_choice src c st")
  obtain cs2 st2 where s2: "fix_choices src cs st1 = (cs2, st2)" by (cases "fix_choices src cs st1")
  from Cons.prems(1) s1 s2 have eq: "cs' = c1 # cs2" "st' = st2" by auto
  note a = fix_choice_ok [OF s1 Cons.prems(2)]
  from Cons.IH [OF s2 a(3)] a eq show ?case by auto
qed

lemma fix_sections_ok:
  "fix_sections ss st = (ss', st') \<Longrightarrow> st_ok nums st \<Longrightarrow>
     (\<forall>s\<in>set ss'. \<forall>c\<in>set (sec_choices s). destination c \<in> set (existing st'))
     \<and> map section_number ss' = map section_number ss
     \<and> set (existing st) \<subseteq> set (existing st') \<and> st_ok nums st'"
proof (induction ss arbitrary: st ss' st')
  case Nil
  then show ?case by simp
next
  case (Cons s ss)
  obtain cs1 st1 where s1: "fix_choices (section_number s) (sec_choices s) st = (cs1, st1)"
    by (cases "fix_choices (section_number s) (sec_choices s) st")
  obtain ss2 st2 where s2: "fix_sections ss st1 = (ss2, st2)" by (cases "fix_sections ss st1")
  from Cons.prems(1) s1 s2 have eq: "ss' = s\<lparr>sec_choices := cs1\<rparr> # ss2" "st' = st2" by auto
  note a = fix_choices_ok [OF s1 Cons.prems(2)]
  note b = Cons.IH [OF s2 conjunct2 [OF conjunct2 [OF a]]]
  from a b eq show ?case by auto
qed

lemma index_sections_ok:
  "\<forall>e\<in>set m. ref_ok nums e \<Longrightarrow> i + length ss \<le> length nums \<Longrightarrow>
   \<forall>j<length ss. nums ! (i + j) = section_number (ss ! j) \<Longrightarrow>
   \<forall>e\<in>set (index_sections i ss m). ref_ok nums e"
proof (induction ss arbitrary: i m)
  case Nil
  then show ?case by simp
next
  case (Cons s ss)
  from Cons.prems(3) have h: "nums ! i = section_number s" by force
  have "ref_ok nums (section_number s, Obj i)"
    using Cons.prems(2) h by (simp add: ref_ok_def)
  with Cons.prems(1) set_update_subset [of "section_number s" "Obj i" m]
  have 1: "\<forall>e\<in>set (AList.update (section_number s) (Obj i) m). ref_ok nums e" by auto
  have 2: "Suc i + length ss \<le> length nums" using Cons.prems(2) by simp
  have 3: "\<forall>j<length ss. nums ! (Suc i + j) = section_number (ss ! j)"
  proof (intro allI impI)
    fix j assume "j < length ss"
    then have "Suc j < length (s # ss)" by simp
    with Cons.prems(3) have "nums ! (i + Suc j) = section_number ((s # ss) ! Suc j)" by blast
    then show "nums ! (Suc i + j) = section_number (ss ! j)" by simp
  qed
  from Cons.IH [OF 1 2 3] show ?case by simp
qed

lemma fix_broken_links_closed:
  assumes "fix_broken_links sections = (full_sections, rep)"
  shows "\<forall>s\<in>set full_sections. \<forall>c\<in>set (sec_choices s).
           destination c \<in> section_number ` set full_sections"
proof -
  let ?nums = "map section_number sections"
  let ?m0 = "index_sections 0 sections []"
  let ?init = "\<lparr>by_num = ?m0, existing = map fst ?m0, report = []\<rparr>"
  obtain ss' st where run: "fix_sections sections ?init = (ss', st)"
    by (cases "fix_sections sections ?init")
  have "\<forall>e\<in>set ?m0. ref_ok ?nums e"
    by (rule index_sections_ok) auto
  then have ok0: "st_ok ?nums ?init" by (simp add: st_ok_def)
  note r = fix_sections_ok [OF run ok0]
  from r have dests: "\<forall>s\<in>set ss'. \<forall>c\<in>set (sec_choices s). destination c \<in> set (existing st)"
    and nums: "map section_number ss' = ?nums" and ok: "st_ok ?nums st" by auto
  from assms run have full: "full_sections = map (\<lambda>(n, r). deref ss' r) (sort_key fst (by_num st))"
    by (simp add: fix_broken_links_def Let_def)
  have len: "length ss' = length sections" using nums by (metis length_map)
  have entry: "section_number (deref ss' r) = n \<and>
               (\<forall>c\<in>set (sec_choices (deref ss' r)). destination c \<in> set (existing st))"
    if "(n, r) \<in> set (by_num st)" for n r
  proof (cases r)
    case (Obj i)
    with that ok have i: "i < length sections" "?nums ! i = n"
      by (auto simp: st_ok_def ref_ok_def)
    then have "ss' ! i \<in> set ss'" using len by simp
    moreover have "section_number (ss' ! i) = n"
      using i len nums by (metis nth_map)
    ultimately show ?thesis using Obj dests by auto
  next
    case (New s)
    with that ok show ?thesis by (auto simp: st_ok_def ref_ok_def stub_section_def)
  qed
  have keys: "section_number ` set full_sections = set (existing st)"
  proof -
    have "section_number ` set full_sections = fst ` set (by_num st)"
      unfolding full using entry by (force simp: image_iff)
    with ok show ?thesis by (simp add: st_ok_def)
  qed
  show ?thesis
    unfolding keys using entry unfolding full by auto
qed



lemma repair_choice_ok:
  assumes "repair_choice src c st = (c', st')" and "keys_ok st"
  shows "destination c' \<in> set (existing_sections st')
       \<and> set (existing_sections st) \<subseteq> set (existing_sections st')
       \<and> keys_ok st'
       \<and> (\<forall>k\<in>set (existing_sections st). map_of (parsed st') k = map_of (parsed st) k)
       \<and> (\<forall>k p. k \<notin> set (existing_sections st) \<longrightarrow> map_of (parsed st') k = Some p \<longrightarrow> p = stub_payload k)"
proof -
  let ?dest = "destination c"
  let ?near = "filter (\<lambda>num. \<bar>num - ?dest\<bar> \<le> 2) (existing_sections st)"
  have none: "map_of (parsed st) k = None" if "k \<notin> set (existing_sections st)" for k
    using that assms(2) by (simp add: keys_ok_def map_of_eq_None_iff)
  consider (present) "?dest \<in> set (existing_sections st)"
    | (remap) "?dest \<notin> set (existing_sections st)" "?near \<noteq> []"
    | (stub) "?dest \<notin> set (existing_sections st)" "?near = []" by blast
  then show ?thesis
  proof cases
    case present
    with assms(1) have "c' = c" "st' = st" by (auto simp: repair_choice_def Let_def)
    with present assms(2) none show ?thesis by simp
  next
    case remap
    let ?new = "hd (sort_key (\<lambda>v. (\<bar>v - ?dest\<bar>, v)) ?near)"
    from hd_sort_key_min [OF remap(2)]
    have new: "?new \<in> set (existing_sections st)" by auto
    from remap assms(1) have c': "c' = c\<lparr>destination := ?new\<rparr>"
      and st': "st' = st\<lparr>link_changes := link_changes st @ [remapped_from_line ?dest ?new src]\<rparr>"
      by (auto simp: repair_choice_def Let_def)
    have "keys_ok st'" using assms(2) unfolding st' keys_ok_def by simp
    with new none show ?thesis unfolding c' st' by simp
  next
    case stub
    with assms(1) have c': "c' = c"
      and st': "st' = st\<lparr>parsed := AList.update ?dest (stub_payload ?dest) (parsed st),
              existing_sections := existing_sections st @ [?dest],
              link_changes := link_changes st @ [created_stub_line ?dest src]\<rparr>"
      by (auto simp: repair_choice_def Let_def)
    have 1: "keys_ok st'" using assms(2) unfolding st' keys_ok_def by (simp add: dom_update)
    have 2: "destination c' \<in> set (existing_sections st')" unfolding c' st' by simp
    have 3: "set (existing_sections st) \<subseteq> set (existing_sections st')" unfolding st' by auto
    have 4: "\<forall>k\<in>set (existing_sections st). map_of (parsed st') k = map_of (parsed st) k"
      using stub(1) unfolding st' by (auto simp: update_conv')
    have 5: "\<forall>k p. k \<notin> set (existing_sections st) \<longrightarrow> map_of (parsed st') k = Some p \<longrightarrow> p = stub_payload k"
      using none unfolding st' by (auto simp: update_conv')
    from 1 2 3 4 5 show ?thesis by blast
  qed
qed

lemma repair_choices_ok:
  "repair_choices src cs st = (cs', st') \<Longrightarrow> keys_ok st \<Longrightarrow>
     (\<forall>c\<in>set cs'. destination c \<in> set (existing_sections st'))
       \<and> set (existing_sections st) \<subseteq> set (existing_sections st')
       \<and> keys_ok st'
       \<and> (\<forall>k\<in>set (existing_sections st). map_of (parsed st') k = map_of (parsed st) k)
       \<and> (\<forall>k p. k \<notin> set (existing_sections st) \<longrightarrow> map_of (parsed st') k = Some p \<longrightarrow> p = stub_payload k)"
proof (induction cs arbitrary: st cs' st')
  case Nil
  have "map_of (parsed st) k = None" if "k \<notin> set (existing_sections st)" for k
    using that Nil.prems(2) by (simp add: keys_ok_def map_of_eq_None_iff)
  with Nil show ?case by auto
next
  case (Cons c cs)
  obtain c1 st1 where s1: "repair_choice src c st = (c1, st1)" by (cases "repair_choice src c st")
  obtain cs2 st2 where s2: "repair_choices src cs st1 = (cs2, st2)" by (cases "repair_choices src cs st1")
  from Cons.prems(1) s1 s2 have eq: "cs' = c1 # cs2" "st' = st2" by auto
  note a = repair_choice_ok [OF s1 Cons.prems(2)]
  from a have k1: "keys_ok st1" by blast
  note b = Cons.IH [OF s2 k1]
  have 1: "\<forall>c\<in>set cs'. destination c \<in> set (existing_sections st')"
    using a b eq by auto
  have 2: "set (existing_sections st) \<subseteq> set (existing_sections st')"
    using a b eq by blast
  have 3: "keys_ok st'" using b eq by blast
  have 4: "\<forall>k\<in>set (existing_sections st). map_of (parsed st') k = map_of (parsed st) k"
  proof
    fix k assume k: "k \<in> set (existing_sections st)"
    with a have "k \<in> set (existing_sections st1)" by blast
    with b have "map_of (parsed st2) k = map_of (parsed st1) k" by blast
    also from a k have "\<dots> = map_of (parsed st) k" by blast
    finally show "map_of (parsed st') k = map_of (parsed st) k" using eq by simp
  qed
  have 5: "\<forall>k p. k \<notin> set (existing_sections st) \<longrightarrow> map_of (parsed st') k = Some p \<longrightarrow> p = stub_payload k"
  proof (intro allI impI)
    fix k p assume k: "k \<notin> set (existing_sections st)" and p: "map_of (parsed st') k = Some p"
    show "p = stub_payload k"
    proof (cases "k \<in> set (existing_sections st1)")
      case True
      with b have "map_of (parsed st2) k = map_of (parsed st1) k" by blast
      with p eq have "map_of (parsed st1) k = Some p" by simp
      with a k show ?thesis by blast
    next
      case False
      with b p eq show ?thesis by blast
    qed
  qed
  from 1 2 3 4 5 show ?case by blast
qed

lemma closed_in_mono:
  "closed_in st p \<Longrightarrow> set (existing_sections st) \<subseteq> set (existing_sections st') \<Longrightarrow> closed_in st' p"
  by (auto simp: closed_in_def)

lemma repair_nodes_ok:
  "keys_ok st \<Longrightarrow>
   keys_ok (repair_nodes ks st)
   \<and> set (existing_sections st) \<subseteq> set (existing_sections (repair_nodes ks st))
   \<and> (\<forall>k p. map_of (parsed (repair_nodes ks st)) k = Some p \<longrightarrow>
          (k \<in> set ks \<or> k \<notin> set (existing_sections st)
            \<or> (\<exists>p0. map_of (parsed st) k = Some p0 \<and> closed_in st p0)) \<longrightarrow>
          closed_in (repair_nodes ks st) p)"
proof (induction ks arbitrary: st)
  case Nil
  have "closed_in st p" if "map_of (parsed st) k = Some p" "k \<notin> set (existing_sections st)" for k p
  proof -
    from that(1) have "k \<in> fst ` set (parsed st)" by (metis map_of_eq_None_iff option.distinct(1))
    with Nil that(2) show ?thesis by (simp add: keys_ok_def)
  qed
  with Nil show ?case by auto
next
  case (Cons k ks)
  show ?case
  proof (cases "map_of (parsed st) k")
    case None
    then have kn: "k \<notin> set (existing_sections st)"
      using Cons.prems by (simp add: keys_ok_def map_of_eq_None_iff)
    from None have eq: "repair_nodes (k # ks) st = repair_nodes ks st" by simp
    from Cons.IH [OF Cons.prems] kn show ?thesis unfolding eq by auto
  next
    case (Some nd)
    obtain cs1 st1 where s1: "repair_choices (section_number nd) (sec_choices nd) st = (cs1, st1)"
      by (cases "repair_choices (section_number nd) (sec_choices nd) st")
    define st2 where "st2 = st1\<lparr>parsed := AList.update k (nd\<lparr>sec_choices := cs1\<rparr>) (parsed st1)\<rparr>"
    from Some s1 have eq: "repair_nodes (k # ks) st = repair_nodes ks st2"
      by (simp add: st2_def)
    note a = repair_choices_ok [OF s1 Cons.prems]
    from Some have kin: "k \<in> set (existing_sections st)"
      using Cons.prems by (metis keys_ok_def map_of_eq_None_iff option.distinct(1))
    with a have kin1: "k \<in> set (existing_sections st1)" by blast
    have ex2: "existing_sections st2 = existing_sections st1" by (simp add: st2_def)
    have k2: "keys_ok st2"
      using a kin1 by (auto simp: keys_ok_def st2_def dom_update)
    note ih = Cons.IH [OF k2]
    have mono: "set (existing_sections st) \<subseteq> set (existing_sections st2)"
      using a ex2 by auto
    have cl_k: "closed_in st2 (nd\<lparr>sec_choices := cs1\<rparr>)"
      using a by (simp add: closed_in_def ex2)
    have at_k: "map_of (parsed st2) k = Some (nd\<lparr>sec_choices := cs1\<rparr>)"
      by (simp add: st2_def update_conv')
    have other: "map_of (parsed st2) k' = map_of (parsed st1) k'" if "k' \<noteq> k" for k'
      using that by (simp add: st2_def update_conv')
    have goal3: "closed_in (repair_nodes ks st2) p"
      if p: "map_of (parsed (repair_nodes ks st2)) k' = Some p"
        and d: "k' \<in> set (k # ks) \<or> k' \<notin> set (existing_sections st)
            \<or> (\<exists>p0. map_of (parsed st) k' = Some p0 \<and> closed_in st p0)" for k' p
    proof -
      have "k' \<in> set ks \<or> k' \<notin> set (existing_sections st2)
            \<or> (\<exists>p0. map_of (parsed st2) k' = Some p0 \<and> closed_in st2 p0)"
      proof (cases "k' = k")
        case True
        with at_k cl_k show ?thesis by blast
      next
        case ne: False
        show ?thesis
        proof (cases "k' \<in> set ks")
          case True
          then show ?thesis by simp
        next
          case nks: False
          show ?thesis
          proof (cases "k' \<in> set (existing_sections st)")
            case True
            with d ne nks obtain p0 where p0: "map_of (parsed st) k' = Some p0" "closed_in st p0"
              by auto
            from True a have "map_of (parsed st1) k' = map_of (parsed st) k'" by blast
            with other [OF ne] p0 have "map_of (parsed st2) k' = Some p0" by simp
            moreover have "closed_in st2 p0" using p0(2) mono by (rule closed_in_mono)
            ultimately show ?thesis by blast
          next
            case False
            show ?thesis
            proof (cases "map_of (parsed st2) k'")
              case None
              then have "k' \<notin> set (existing_sections st2)"
                using k2 by (simp add: keys_ok_def map_of_eq_None_iff)
              then show ?thesis by simp
            next
              case (Some q)
              with other [OF ne] have "map_of (parsed st1) k' = Some q" by simp
              with a False have "q = stub_payload k'" by blast
              then have "closed_in st2 q" by (simp add: closed_in_def stub_payload_def)
              with Some show ?thesis by blast
            qed
          qed
        qed
      qed
      with ih p show ?thesis by blast
    qed
    from ih mono goal3 show ?thesis unfolding eq by (meson subset_trans)
  qed
qed

lemma distinct_repair_choice:
  "repair_choice src c st = (c', st') \<Longrightarrow> distinct (map fst (parsed st)) \<Longrightarrow> distinct (map fst (parsed st'))"
  by (auto simp: repair_choice_def Let_def distinct_update split: if_splits)

lemma distinct_repair_choices:
  "repair_choices src cs st = (cs', st') \<Longrightarrow> distinct (map fst (parsed st)) \<Longrightarrow> distinct (map fst (parsed st'))"
proof (induction cs arbitrary: st cs' st')
  case Nil
  then show ?case by simp
next
  case (Cons c cs)
  obtain c1 st1 where s1: "repair_choice src c st = (c1, st1)" by (cases "repair_choice src c st")
  obtain cs2 st2 where s2: "repair_choices src cs st1 = (cs2, st2)" by (cases "repair_choices src cs st1")
  from Cons.prems(1) s1 s2 have eq: "st' = st2" by auto
  from Cons.IH [OF s2 distinct_repair_choice [OF s1 Cons.prems(2)]] eq show ?case by simp
qed

lemma distinct_repair_nodes:
  "distinct (map fst (parsed st)) \<Longrightarrow> distinct (map fst (parsed (repair_nodes ks st)))"
proof (induction ks arbitrary: st)
  case Nil
  then show ?case by simp
next
  case (Cons k ks)
  show ?case
  proof (cases "map_of (parsed st) k")
    case None
    with Cons show ?thesis by simp
  next
    case (Some nd)
    obtain cs1 st1 where s1: "repair_choices (section_number nd) (sec_choices nd) st = (cs1, st1)"
      by (cases "repair_choices (section_number nd) (sec_choices nd) st")
    have "distinct (map fst (parsed (st1\<lparr>parsed := AList.update k (nd\<lparr>sec_choices := cs1\<rparr>) (parsed st1)\<rparr>)))"
      using distinct_repair_choices [OF s1 Cons.prems] by (simp add: distinct_update)
    from Cons.IH [OF this] Some s1 show ?thesis by simp
  qed
qed

lemma repair_links_closed:
  assumes "repair_links parsed0 changes0 = (parsed1, changes)" and "distinct (map fst parsed0)"
  shows "\<forall>(n, p)\<in>set parsed1. \<forall>c\<in>set (sec_choices p). destination c \<in> fst ` set parsed1"
proof -
  let ?ks = "map fst (sort_key (\<lambda>(k, item). section_number item) parsed0)"
  let ?init = "\<lparr>parsed = parsed0, existing_sections = map fst parsed0, link_changes = changes0\<rparr>"
  let ?st = "repair_nodes ?ks ?init"
  from assms(1) have p1: "parsed1 = parsed ?st" by (simp add: repair_links_def Let_def)
  have k0: "keys_ok ?init" by (simp add: keys_ok_def)
  note r = repair_nodes_ok [OF k0, of ?ks]
  have d: "distinct (map fst (parsed ?st))"
    by (rule distinct_repair_nodes) (simp add: assms(2))
  have ks: "set ?ks = set (existing_sections ?init)" by simp
  show ?thesis
  proof (clarify)
    fix n p c assume np: "(n, p) \<in> set parsed1" and c: "c \<in> set (sec_choices p)"
    from np d have "map_of (parsed ?st) n = Some p" by (simp add: p1)
    moreover have "n \<in> set ?ks \<or> n \<notin> set (existing_sections ?init)" unfolding ks by blast
    ultimately have "closed_in ?st p" using r by blast
    with c have "destination c \<in> set (existing_sections ?st)" by (simp add: closed_in_def)
    moreover from r have "keys_ok ?st" by (rule conjunct1)
    then have "fst ` set (parsed ?st) = set (existing_sections ?st)" by (simp only: keys_ok_def)
    ultimately show "destination c \<in> fst ` set parsed1" unfolding p1 by (simp only:)
  qed
qed



lemma set_entry_first: "set (entry_first ns) = set ns"
  by (simp add: entry_first_def Let_def)

lemma untyped_promote_first: "map untyped (promote_first P ns) = map untyped ns"
  by (induction ns) (simp_all add: untyped_def)

lemma untyped_ensure_win: "map untyped (ensure_win ns) = map untyped ns"
  by (simp add: ensure_win_def Let_def untyped_promote_first)

lemma untyped_fields:
  assumes "map untyped ms = map untyped ns" and "m \<in> set ms"
  shows "\<exists>n\<in>set ns. node_id m = node_id n \<and> choices m = choices n \<and> node_number m = node_number n"
proof -
  from assms(2) have "untyped m \<in> set (map untyped ns)"
    unfolding assms(1) [symmetric] by simp
  then obtain n where "n \<in> set ns" "untyped m = untyped n" by auto
  moreover have "node_id (untyped x) = node_id x \<and> choices (untyped x) = choices x
      \<and> node_number (untyped x) = node_number x" for x
    by (simp add: untyped_def)
  ultimately show ?thesis by metis
qed

lemma story_node_fields:
  "node_id (story_node n p) = section_id n"
  "node_number (story_node n p) = n"
  "choices (story_node n p) =
     map (\<lambda>c. \<lparr>choice_text = take 60 (label c), next_id = section_id (destination c)\<rparr>)
       (take 4 (sec_choices p))"
  by (simp_all add: story_node_def Let_def)

lemma build_story_node_fields:
  "node_id (build_story_node cb it s) = section_id (section_number s)"
  "node_number (build_story_node cb it s) = section_number s"
  "map next_id (choices (build_story_node cb it s)) =
     map (\<lambda>c. section_id (destination c)) (take 4 (sec_choices s))"
  by (simp_all add: build_story_node_def Let_def comp_def)

lemma build_story_main_closed:
  assumes "build_story_main cb it sections = (nodes, rep)"
  shows "\<forall>n\<in>set nodes. \<forall>c\<in>set (choices n). next_id c \<in> node_id ` set nodes"
proof -
  obtain fixed rep' where f: "fix_broken_links sections = (fixed, rep')"
    by (cases "fix_broken_links sections")
  with assms have nodes: "nodes = entry_first (build_story_nodes cb it fixed)"
    by (simp add: build_story_main_def)
  note cl = fix_broken_links_closed [OF f]
  have ids: "node_id ` set nodes = section_id ` section_number ` set fixed"
    unfolding nodes set_entry_first
    by (auto simp: build_story_nodes_def build_story_node_fields image_iff)
  show ?thesis
  proof (intro ballI)
    fix n c assume n: "n \<in> set nodes" and c: "c \<in> set (choices n)"
    from n obtain s where s: "s \<in> set fixed" "n = build_story_node cb it s"
      unfolding nodes set_entry_first by (auto simp: build_story_nodes_def)
    from c have "next_id c \<in> set (map next_id (choices n))" by simp
    then obtain pc where pc: "pc \<in> set (take 4 (sec_choices s))"
      "next_id c = section_id (destination pc)"
      unfolding s(2) build_story_node_fields by auto
    from pc(1) have "pc \<in> set (sec_choices s)" by (rule in_set_takeD)
    with cl s(1) have "destination pc \<in> section_number ` set fixed" by blast
    with pc(2) show "next_id c \<in> node_id ` set nodes" unfolding ids by blast
  qed
qed

lemma build_story_closed:
  assumes "build_story parsed0 changes0 = (nodes, changes)" and "distinct (map fst parsed0)"
  shows "\<forall>n\<in>set nodes. \<forall>c\<in>set (choices n). next_id c \<in> node_id ` set nodes"
proof -
  obtain parsed1 ch where r: "repair_links parsed0 changes0 = (parsed1, ch)"
    by (cases "repair_links parsed0 changes0")
  define built where "built = map (\<lambda>(n, payload). story_node n payload) (sort_key fst parsed1)"
  from assms(1) r have nodes: "nodes = ensure_win (entry_first built)"
    by (simp add: build_story_def built_def)
  note cl = repair_links_closed [OF r assms(2)]
  have u: "map untyped nodes = map untyped (entry_first built)"
    unfolding nodes by (rule untyped_ensure_win)
  have ids: "node_id ` set built = section_id ` fst ` set parsed1"
  proof -
    have "map node_id built = map section_id (map fst (sort_key fst parsed1))"
      by (simp add: built_def story_node_fields case_prod_beta comp_def)
    then have "set (map node_id built) = set (map section_id (map fst (sort_key fst parsed1)))"
      by (simp only:)
    then show ?thesis by (simp add: image_image)
  qed
  have ids': "node_id ` set nodes = node_id ` set built"
  proof -
    have "map node_id nodes = map (node_id \<circ> untyped) nodes" by (simp add: untyped_def)
    also have "\<dots> = map node_id (map untyped nodes)" by simp
    also have "\<dots> = map node_id (map untyped (entry_first built))" by (simp only: u)
    also have "\<dots> = map node_id (entry_first built)" by (simp add: untyped_def)
    finally have "set (map node_id nodes) = set (map node_id (entry_first built))" by simp
    then show ?thesis by (simp add: set_entry_first)
  qed
  show ?thesis
  proof (intro ballI)
    fix n c assume n: "n \<in> set nodes" and c: "c \<in> set (choices n)"
    from untyped_fields [OF u n] obtain b where b: "b \<in> set built" "choices n = choices b"
      by (auto simp: set_entry_first)
    from b(1) obtain k p where kp: "(k, p) \<in> set parsed1" "b = story_node k p"
      by (auto simp: built_def)
    from c b(2) kp(2) obtain pc where pc: "pc \<in> set (take 4 (sec_choices p))"
      "next_id c = section_id (destination pc)"
      by (auto simp: story_node_fields)
    from pc(1) have "pc \<in> set (sec_choices p)" by (rule in_set_takeD)
    with cl kp(1) have "destination pc \<in> fst ` set parsed1" by blast
    with pc(2) show "next_id c \<in> node_id ` set nodes" unfolding ids' ids by blast
  qed
qed

section \<open>The scenarios, evaluated\<close>


lemma scenario_B_fixed:
  "fix_broken_links scenario_B =
     ([fork 1 3, glade 2, glade 3, glade 7],
      [''Remapped missing destination 5 -> 3 (source section 1)''])"
  by code_simp

lemma scenario_B_repaired:
  "repair_links scenario_B_parsed [] =
     ([(1, fork 1 3), (2, glade 2), (3, glade 3), (7, glade 7)],
      [''Remapped missing destination 5 -> 3 (from section 1).''])"
  by code_simp

lemma scenario_C_fixed:
  "fix_broken_links scenario_C =
     ([fork 1 50,
       \<lparr>section_number = 50, sec_title = None, sec_text = ''[Section 50 - not found in source]'',
        sec_choices = [], sec_node_type = Some ''ending_neutral''\<rparr>],
      [''Created stub section 50 (referenced by section 1)''])"
  by code_simp

lemma scenario_C_repaired:
  "repair_links scenario_C_parsed [] =
     ([(1, fork 1 50),
       (50, \<lparr>section_number = 50, sec_title = Some ''Section 50'',
        sec_text = ''[Section 50 - not found in source]'',
        sec_choices = [], sec_node_type = Some ''ending_neutral''\<rparr>)],
      [''Created stub section 50 (referenced by section 1).''])"
  by code_simp

section \<open>No dangling edge survives the repair\<close>


text \<open>
  Claim C1. After the repair, every choice of every section of the output leads to a
  section number of the output; in \<^verbatim>\<open>story.json\<close> terms, every \<^verbatim>\<open>next\<close> is the
  \<^verbatim>\<open>id\<close> of a node of the output. This holds for \<^verbatim>\<open>fix_broken_links\<close>, for the nodes
  that \<^verbatim>\<open>build_story.py\<close> makes of its result, and for \<^verbatim>\<open>build_story\<close> of
  \<^verbatim>\<open>repair_story_text.py\<close>, whether an edge was closed by a remap or by a stub.
\<close>

theorem repair_closes_every_edge:
  "(\<forall>s\<in>set (fst (fix_broken_links sections)). \<forall>c\<in>set (sec_choices s).
       destination c \<in> section_number ` set (fst (fix_broken_links sections)))
   \<and> (\<forall>n\<in>set (fst (build_story_main clean_body infer_title sections)). \<forall>c\<in>set (choices n).
       next_id c \<in> node_id ` set (fst (build_story_main clean_body infer_title sections)))
   \<and> (distinct (map fst parsed0) \<longrightarrow>
        (\<forall>n\<in>set (fst (build_story parsed0 changes0)). \<forall>c\<in>set (choices n).
           next_id c \<in> node_id ` set (fst (build_story parsed0 changes0))))"
proof (intro conjI impI)
  show "\<forall>s\<in>set (fst (fix_broken_links sections)). \<forall>c\<in>set (sec_choices s).
       destination c \<in> section_number ` set (fst (fix_broken_links sections))"
    by (rule fix_broken_links_closed [OF prod.collapse [symmetric]])
  show "\<forall>n\<in>set (fst (build_story_main clean_body infer_title sections)). \<forall>c\<in>set (choices n).
       next_id c \<in> node_id ` set (fst (build_story_main clean_body infer_title sections))"
    by (rule build_story_main_closed [OF prod.collapse [symmetric]])
  assume "distinct (map fst parsed0)"
  then show "\<forall>n\<in>set (fst (build_story parsed0 changes0)). \<forall>c\<in>set (choices n).
           next_id c \<in> node_id ` set (fst (build_story parsed0 changes0))"
    by (rule build_story_closed [OF prod.collapse [symmetric]])
qed

lemma scenario_B_story:
  "fst (build_story scenario_B_parsed []) =
     [\<lparr>node_id = ''section_1'', node_number = 1, title = ''Forest Road'',
       node_text = ''A fork in the forest road.'', node_type = ''normal'',
       choices = [\<lparr>choice_text = ''Take the left path.'', next_id = ''section_3''\<rparr>]\<rparr>,
      \<lparr>node_id = ''section_2'', node_number = 2, title = ''Forest Road'',
       node_text = ''A quiet glade in the forest.'', node_type = ''ending_win'', choices = []\<rparr>,
      \<lparr>node_id = ''section_3'', node_number = 3, title = ''Forest Road'',
       node_text = ''A quiet glade in the forest.'', node_type = ''ending_neutral'', choices = []\<rparr>,
      \<lparr>node_id = ''section_7'', node_number = 7, title = ''Forest Road'',
       node_text = ''A quiet glade in the forest.'', node_type = ''ending_neutral'', choices = []\<rparr>]"
  by code_simp

theorem repair_closes_every_edge_witness:
  "(\<exists>s\<in>set (fst (fix_broken_links scenario_B)). \<exists>c\<in>set (sec_choices s).
       destination c = 3 \<and> destination c \<in> section_number ` set (fst (fix_broken_links scenario_B)))
   \<and> distinct (map fst scenario_B_parsed)
   \<and> (\<exists>n\<in>set (fst (build_story scenario_B_parsed [])). \<exists>c\<in>set (choices n).
        next_id c = ''section_3'' \<and> next_id c \<in> node_id ` set (fst (build_story scenario_B_parsed [])))"
proof -
  have d: "distinct (map fst scenario_B_parsed)" by (simp add: scenario_B_parsed_def)
  note t = repair_closes_every_edge [of scenario_B "\<lambda>t. t" "\<lambda>t. t" scenario_B_parsed "[]"]
  have 1: "fork 1 3 \<in> set (fst (fix_broken_links scenario_B))"
    by (simp add: scenario_B_fixed)
  have 2: "\<lparr>label = ''Take the left path.'', destination = 3\<rparr> \<in> set (sec_choices (fork 1 3))"
    by (simp add: fork_def)
  from t 1 2 have a: "\<exists>s\<in>set (fst (fix_broken_links scenario_B)). \<exists>c\<in>set (sec_choices s).
       destination c = 3 \<and> destination c \<in> section_number ` set (fst (fix_broken_links scenario_B))"
    by (metis pchoice.select_convs(2))
  let ?n = "\<lparr>node_id = ''section_1'', node_number = 1, title = ''Forest Road'',
       node_text = ''A fork in the forest road.'', node_type = ''normal'',
       choices = [\<lparr>choice_text = ''Take the left path.'', next_id = ''section_3''\<rparr>]\<rparr>"
  have 3: "?n \<in> set (fst (build_story scenario_B_parsed []))"
    by (simp add: scenario_B_story)
  have 4: "\<lparr>choice_text = ''Take the left path.'', next_id = ''section_3''\<rparr> \<in> set (choices ?n)"
    by simp
  from t d 3 4 have b: "\<exists>n\<in>set (fst (build_story scenario_B_parsed [])). \<exists>c\<in>set (choices n).
        next_id c = ''section_3'' \<and> next_id c \<in> node_id ` set (fst (build_story scenario_B_parsed []))"
    by (metis choice.select_convs(2))
  from a d b show ?thesis by blast
qed

section \<open>Remapping to the nearest section\<close>


lemma near_nonempty: "(filter (\<lambda>n. \<bar>n - d\<bar> \<le> 2) xs \<noteq> []) = (\<exists>n\<in>set xs. \<bar>n - (d::int)\<bar> \<le> 2)"
  by (simp add: filter_empty_conv)

lemma nearest_props:
  fixes d :: int
  assumes "\<exists>n\<in>set xs. \<bar>n - d\<bar> \<le> 2"
  defines "r \<equiv> hd (sort_key (\<lambda>n. (\<bar>n - d\<bar>, n)) (filter (\<lambda>n. \<bar>n - d\<bar> \<le> 2) xs))"
  shows "r \<in> set xs" and "\<bar>r - d\<bar> \<le> 2"
    and "\<forall>n\<in>set xs. \<bar>n - d\<bar> \<le> 2 \<longrightarrow> \<bar>r - d\<bar> < \<bar>n - d\<bar> \<or> (\<bar>r - d\<bar> = \<bar>n - d\<bar> \<and> r \<le> n)"
proof -
  let ?near = "filter (\<lambda>n. \<bar>n - d\<bar> \<le> 2) xs"
  from assms(1) have ne: "?near \<noteq> []" by (simp add: near_nonempty)
  note m = hd_sort_key_min [OF ne, of "\<lambda>n. (\<bar>n - d\<bar>, n)"]
  from m show "r \<in> set xs" and "\<bar>r - d\<bar> \<le> 2" by (auto simp: r_def)
  show "\<forall>n\<in>set xs. \<bar>n - d\<bar> \<le> 2 \<longrightarrow> \<bar>r - d\<bar> < \<bar>n - d\<bar> \<or> (\<bar>r - d\<bar> = \<bar>n - d\<bar> \<and> r \<le> n)"
  proof (intro ballI impI)
    fix n assume "n \<in> set xs" "\<bar>n - d\<bar> \<le> 2"
    then have "n \<in> set ?near" by simp
    with m have "(\<bar>r - d\<bar>, r) \<le> (\<bar>n - d\<bar>, n)" unfolding r_def by blast
    then show "\<bar>r - d\<bar> < \<bar>n - d\<bar> \<or> (\<bar>r - d\<bar> = \<bar>n - d\<bar> \<and> r \<le> n)"
      by (auto simp: less_eq_prod_def)
  qed
qed

text \<open>
  Claim C3, as amended. A dangling destination D with an existing section number within
  distance 2 is remapped to the candidate R that is closest to D, the smaller number
  winning a tie, and exactly one line is appended to the change log:
  \<^verbatim>\<open>fix_broken_links\<close> writes "Remapped missing destination D -> R (source section S)",
  with no final period, and \<^verbatim>\<open>build_story\<close> of \<^verbatim>\<open>repair_story_text.py\<close> writes
  "Remapped missing destination D -> R (from section S).". In scenario B both remap 5 to 3.
\<close>

theorem remap_to_nearest:
  "(destination c \<notin> set (existing st) \<and> (\<exists>n\<in>set (existing st). \<bar>n - destination c\<bar> \<le> 2) \<longrightarrow>
      (\<exists>R\<in>set (existing st).
          \<bar>R - destination c\<bar> \<le> 2 \<and>
          (\<forall>n\<in>set (existing st). \<bar>n - destination c\<bar> \<le> 2 \<longrightarrow>
              \<bar>R - destination c\<bar> < \<bar>n - destination c\<bar>
              \<or> (\<bar>R - destination c\<bar> = \<bar>n - destination c\<bar> \<and> R \<le> n)) \<and>
          fix_choice S c st =
            (c\<lparr>destination := R\<rparr>,
             st\<lparr>report := report st @
                  [''Remapped missing destination '' @ str_int (destination c) @ '' -> ''
                     @ str_int R @ '' (source section '' @ str_int S @ '')'']\<rparr>)))
   \<and> (destination c \<notin> set (existing_sections rst)
        \<and> (\<exists>n\<in>set (existing_sections rst). \<bar>n - destination c\<bar> \<le> 2) \<longrightarrow>
      (\<exists>R\<in>set (existing_sections rst).
          \<bar>R - destination c\<bar> \<le> 2 \<and>
          (\<forall>n\<in>set (existing_sections rst). \<bar>n - destination c\<bar> \<le> 2 \<longrightarrow>
              \<bar>R - destination c\<bar> < \<bar>n - destination c\<bar>
              \<or> (\<bar>R - destination c\<bar> = \<bar>n - destination c\<bar> \<and> R \<le> n)) \<and>
          repair_choice S c rst =
            (c\<lparr>destination := R\<rparr>,
             rst\<lparr>link_changes := link_changes rst @
                  [''Remapped missing destination '' @ str_int (destination c) @ '' -> ''
                     @ str_int R @ '' (from section '' @ str_int S @ '').'']\<rparr>)))
   \<and> fix_broken_links scenario_B =
        ([fork 1 3, glade 2, glade 3, glade 7],
         [''Remapped missing destination 5 -> 3 (source section 1)''])
   \<and> repair_links scenario_B_parsed [] =
        ([(1, fork 1 3), (2, glade 2), (3, glade 3), (7, glade 7)],
         [''Remapped missing destination 5 -> 3 (from section 1).''])"
proof (intro conjI impI)
  assume h: "destination c \<notin> set (existing st) \<and> (\<exists>n\<in>set (existing st). \<bar>n - destination c\<bar> \<le> 2)"
  let ?d = "destination c"
  let ?R = "hd (sort_key (\<lambda>n. (\<bar>n - ?d\<bar>, n)) (filter (\<lambda>n. \<bar>n - ?d\<bar> \<le> 2) (existing st)))"
  from h have ex: "\<exists>n\<in>set (existing st). \<bar>n - ?d\<bar> \<le> 2" by simp
  note p = nearest_props [OF ex]
  have "fix_choice S c st =
            (c\<lparr>destination := ?R\<rparr>,
             st\<lparr>report := report st @
                  [''Remapped missing destination '' @ str_int ?d @ '' -> ''
                     @ str_int ?R @ '' (source section '' @ str_int S @ '')'']\<rparr>)"
    using h by (simp add: fix_choice_def Let_def near_nonempty choice_sort_key_def remapped_line_def)
  with p show "\<exists>R\<in>set (existing st).
          \<bar>R - ?d\<bar> \<le> 2 \<and>
          (\<forall>n\<in>set (existing st). \<bar>n - ?d\<bar> \<le> 2 \<longrightarrow>
              \<bar>R - ?d\<bar> < \<bar>n - ?d\<bar> \<or> (\<bar>R - ?d\<bar> = \<bar>n - ?d\<bar> \<and> R \<le> n)) \<and>
          fix_choice S c st =
            (c\<lparr>destination := R\<rparr>,
             st\<lparr>report := report st @
                  [''Remapped missing destination '' @ str_int ?d @ '' -> ''
                     @ str_int R @ '' (source section '' @ str_int S @ '')'']\<rparr>)"
    by blast
next
  assume h: "destination c \<notin> set (existing_sections rst)
        \<and> (\<exists>n\<in>set (existing_sections rst). \<bar>n - destination c\<bar> \<le> 2)"
  let ?d = "destination c"
  let ?R = "hd (sort_key (\<lambda>n. (\<bar>n - ?d\<bar>, n)) (filter (\<lambda>n. \<bar>n - ?d\<bar> \<le> 2) (existing_sections rst)))"
  from h have ex: "\<exists>n\<in>set (existing_sections rst). \<bar>n - ?d\<bar> \<le> 2" by simp
  note p = nearest_props [OF ex]
  have "repair_choice S c rst =
            (c\<lparr>destination := ?R\<rparr>,
             rst\<lparr>link_changes := link_changes rst @
                  [''Remapped missing destination '' @ str_int ?d @ '' -> ''
                     @ str_int ?R @ '' (from section '' @ str_int S @ '').'']\<rparr>)"
    using h by (simp add: repair_choice_def Let_def near_nonempty remapped_from_line_def)
  with p show "\<exists>R\<in>set (existing_sections rst).
          \<bar>R - ?d\<bar> \<le> 2 \<and>
          (\<forall>n\<in>set (existing_sections rst). \<bar>n - ?d\<bar> \<le> 2 \<longrightarrow>
              \<bar>R - ?d\<bar> < \<bar>n - ?d\<bar> \<or> (\<bar>R - ?d\<bar> = \<bar>n - ?d\<bar> \<and> R \<le> n)) \<and>
          repair_choice S c rst =
            (c\<lparr>destination := R\<rparr>,
             rst\<lparr>link_changes := link_changes rst @
                  [''Remapped missing destination '' @ str_int ?d @ '' -> ''
                     @ str_int R @ '' (from section '' @ str_int S @ '').'']\<rparr>)"
    by blast
qed (rule scenario_B_fixed scenario_B_repaired)+

theorem remap_log_line_counterexample:
  "''Remapped missing destination 5 -> 3 (source section 1).''
     \<notin> set (snd (fix_broken_links scenario_B))
   \<and> ''Remapped missing destination 5 -> 3 (source section 1).''
     \<notin> set (snd (repair_links scenario_B_parsed []))"
  by (simp add: scenario_B_fixed scenario_B_repaired)


lemma str_int_small: "str_int 1 = ''1''" "str_int 3 = ''3''" "str_int 5 = ''5''"
  by code_simp+

theorem remap_to_nearest_witness:
  "5 \<notin> set [1, 2, 3, 7 :: int] \<and> (\<exists>n\<in>set [1, 2, 3, 7 :: int]. \<bar>n - 5\<bar> \<le> 2)
   \<and> fix_choice 1 \<lparr>label = ''Take the left path.'', destination = 5\<rparr>
         \<lparr>by_num = [], existing = [1, 2, 3, 7], report = []\<rparr>
       = (\<lparr>label = ''Take the left path.'', destination = 3\<rparr>,
          \<lparr>by_num = [], existing = [1, 2, 3, 7],
           report = [''Remapped missing destination 5 -> 3 (source section 1)'']\<rparr>)
   \<and> repair_choice 1 \<lparr>label = ''Take the left path.'', destination = 5\<rparr>
         \<lparr>parsed = [], existing_sections = [1, 2, 3, 7], link_changes = []\<rparr>
       = (\<lparr>label = ''Take the left path.'', destination = 3\<rparr>,
          \<lparr>parsed = [], existing_sections = [1, 2, 3, 7],
           link_changes = [''Remapped missing destination 5 -> 3 (from section 1).'']\<rparr>)"
proof -
  let ?c = "\<lparr>label = ''Take the left path.'', destination = 5\<rparr>"
  let ?st = "\<lparr>by_num = [], existing = [1, 2, 3, 7], report = []\<rparr>"
  let ?rst = "\<lparr>parsed = [], existing_sections = [1, 2, 3, 7], link_changes = []\<rparr>"
  have h1: "5 \<notin> set [1, 2, 3, 7 :: int]" by simp
  have h2: "\<exists>n\<in>set [1, 2, 3, 7 :: int]. \<bar>n - 5\<bar> \<le> 2" by simp
  note t = remap_to_nearest [of ?c ?st 1 ?rst]
  have three: "R = 3"
    if "R \<in> set [1, 2, 3, 7 :: int]" "\<bar>R - 5\<bar> \<le> 2"
      "\<forall>n\<in>set [1, 2, 3, 7 :: int]. \<bar>n - 5\<bar> \<le> 2 \<longrightarrow>
          \<bar>R - 5\<bar> < \<bar>n - 5\<bar> \<or> (\<bar>R - 5\<bar> = \<bar>n - 5\<bar> \<and> R \<le> n)" for R :: int
    using that by auto
  from t h1 h2 obtain R where R: "R \<in> set [1, 2, 3, 7 :: int]" "\<bar>R - 5\<bar> \<le> 2"
      "\<forall>n\<in>set [1, 2, 3, 7 :: int]. \<bar>n - 5\<bar> \<le> 2 \<longrightarrow>
          \<bar>R - 5\<bar> < \<bar>n - 5\<bar> \<or> (\<bar>R - 5\<bar> = \<bar>n - 5\<bar> \<and> R \<le> n)"
      "fix_choice 1 ?c ?st =
         (?c\<lparr>destination := R\<rparr>,
          ?st\<lparr>report := report ?st @
               [''Remapped missing destination '' @ str_int (destination ?c) @ '' -> ''
                  @ str_int R @ '' (source section '' @ str_int 1 @ '')'']\<rparr>)"
    by auto
  from three [OF R(1,2,3)] R(4) have a: "fix_choice 1 ?c ?st =
       (\<lparr>label = ''Take the left path.'', destination = 3\<rparr>,
          \<lparr>by_num = [], existing = [1, 2, 3, 7],
           report = [''Remapped missing destination 5 -> 3 (source section 1)'']\<rparr>)"
    by (simp add: str_int_small)
  from t h1 h2 obtain R' where R': "R' \<in> set [1, 2, 3, 7 :: int]" "\<bar>R' - 5\<bar> \<le> 2"
      "\<forall>n\<in>set [1, 2, 3, 7 :: int]. \<bar>n - 5\<bar> \<le> 2 \<longrightarrow>
          \<bar>R' - 5\<bar> < \<bar>n - 5\<bar> \<or> (\<bar>R' - 5\<bar> = \<bar>n - 5\<bar> \<and> R' \<le> n)"
      "repair_choice 1 ?c ?rst =
         (?c\<lparr>destination := R'\<rparr>,
          ?rst\<lparr>link_changes := link_changes ?rst @
               [''Remapped missing destination '' @ str_int (destination ?c) @ '' -> ''
                  @ str_int R' @ '' (from section '' @ str_int 1 @ '').'']\<rparr>)"
    by auto
  from three [OF R'(1,2,3)] R'(4) have b: "repair_choice 1 ?c ?rst =
       (\<lparr>label = ''Take the left path.'', destination = 3\<rparr>,
          \<lparr>parsed = [], existing_sections = [1, 2, 3, 7],
           link_changes = [''Remapped missing destination 5 -> 3 (from section 1).'']\<rparr>)"
    by (simp add: str_int_small)
  from h1 h2 a b show ?thesis by blast
qed

section \<open>Stub synthesis\<close>


lemma fix_broken_links_stubs:
  assumes "fix_broken_links sections = (full_sections, rep)"
  shows "\<forall>s\<in>set full_sections.
           section_number s \<in> section_number ` set sections \<or> s = stub_section (section_number s)"
proof -
  let ?nums = "map section_number sections"
  let ?m0 = "index_sections 0 sections []"
  let ?init = "\<lparr>by_num = ?m0, existing = map fst ?m0, report = []\<rparr>"
  obtain ss' st where run: "fix_sections sections ?init = (ss', st)"
    by (cases "fix_sections sections ?init")
  have "\<forall>e\<in>set ?m0. ref_ok ?nums e"
    by (rule index_sections_ok) auto
  then have ok0: "st_ok ?nums ?init" by (simp add: st_ok_def)
  note r = fix_sections_ok [OF run ok0]
  from r have nums: "map section_number ss' = ?nums" and ok: "st_ok ?nums st" by auto
  from assms run have full: "full_sections = map (\<lambda>(n, r). deref ss' r) (sort_key fst (by_num st))"
    by (simp add: fix_broken_links_def Let_def)
  have len: "length ss' = length sections" using nums by (metis length_map)
  have entry: "section_number (deref ss' r) \<in> section_number ` set sections
               \<or> deref ss' r = stub_section (section_number (deref ss' r))"
    if "(n, r) \<in> set (by_num st)" for n r
  proof (cases r)
    case (Obj i)
    with that ok have i: "i < length sections" "?nums ! i = n"
      by (auto simp: st_ok_def ref_ok_def)
    have "section_number (ss' ! i) = ?nums ! i"
      using i len nums by (metis nth_map)
    also have "\<dots> = section_number (sections ! i)" using i by simp
    finally show ?thesis using Obj i(1) by simp
  next
    case (New s)
    with that ok have "s = stub_section n" by (auto simp: st_ok_def ref_ok_def)
    with New show ?thesis by (simp add: stub_section_def)
  qed
  show ?thesis unfolding full using entry by auto
qed

text \<open>
  Claim C4. While the repair handles a choice with destination D, it creates a stub
  exactly when no existing section number lies within distance 2 of D (a number at
  distance 0 is D itself, so such a D is dangling), and the stub is the section with
  number D, type \<^verbatim>\<open>ending_neutral\<close>, no choices and the text
  "[Section D - not found in source]" (\<^verbatim>\<open>repair_story_text.py\<close> adds the title
  "Section D"). Nothing else is ever added to the sections, and in scenario C the result
  holds section 50 with these fields.
\<close>

theorem stub_iff_no_neighbour:
  "((\<exists>n\<in>set (existing st). \<bar>n - destination c\<bar> \<le> 2) \<longrightarrow>
      by_num (snd (fix_choice S c st)) = by_num st
      \<and> existing (snd (fix_choice S c st)) = existing st)
   \<and> (\<not> (\<exists>n\<in>set (existing st). \<bar>n - destination c\<bar> \<le> 2) \<longrightarrow>
      fix_choice S c st =
        (c, st\<lparr>by_num := AList.update (destination c)
                  (New \<lparr>section_number = destination c, sec_title = None,
                        sec_text = ''[Section '' @ str_int (destination c) @ '' - not found in source]'',
                        sec_choices = [], sec_node_type = Some ''ending_neutral''\<rparr>) (by_num st),
               existing := existing st @ [destination c],
               report := report st @
                 [''Created stub section '' @ str_int (destination c)
                    @ '' (referenced by section '' @ str_int S @ '')'']\<rparr>))
   \<and> ((\<exists>n\<in>set (existing_sections rst). \<bar>n - destination c\<bar> \<le> 2) \<longrightarrow>
      parsed (snd (repair_choice S c rst)) = parsed rst
      \<and> existing_sections (snd (repair_choice S c rst)) = existing_sections rst)
   \<and> (\<not> (\<exists>n\<in>set (existing_sections rst). \<bar>n - destination c\<bar> \<le> 2) \<longrightarrow>
      repair_choice S c rst =
        (c, rst\<lparr>parsed := AList.update (destination c)
                  \<lparr>section_number = destination c,
                   sec_title = Some (''Section '' @ str_int (destination c)),
                   sec_text = ''[Section '' @ str_int (destination c) @ '' - not found in source]'',
                   sec_choices = [], sec_node_type = Some ''ending_neutral''\<rparr> (parsed rst),
               existing_sections := existing_sections rst @ [destination c],
               link_changes := link_changes rst @
                 [''Created stub section '' @ str_int (destination c)
                    @ '' (referenced by section '' @ str_int S @ '').'']\<rparr>))
   \<and> (\<forall>s\<in>set (fst (fix_broken_links sections)).
         section_number s \<in> section_number ` set sections
         \<or> s = \<lparr>section_number = section_number s, sec_title = None,
                 sec_text = ''[Section '' @ str_int (section_number s) @ '' - not found in source]'',
                 sec_choices = [], sec_node_type = Some ''ending_neutral''\<rparr>)
   \<and> fst (fix_broken_links scenario_C) =
        [fork 1 50,
         \<lparr>section_number = 50, sec_title = None,
          sec_text = ''[Section 50 - not found in source]'',
          sec_choices = [], sec_node_type = Some ''ending_neutral''\<rparr>]
   \<and> fst (repair_links scenario_C_parsed []) =
        [(1, fork 1 50),
         (50, \<lparr>section_number = 50, sec_title = Some ''Section 50'',
               sec_text = ''[Section 50 - not found in source]'',
               sec_choices = [], sec_node_type = Some ''ending_neutral''\<rparr>)]"
proof (intro conjI impI)
  assume "\<exists>n\<in>set (existing st). \<bar>n - destination c\<bar> \<le> 2"
  then show "by_num (snd (fix_choice S c st)) = by_num st"
    and "existing (snd (fix_choice S c st)) = existing st"
    by (simp_all add: fix_choice_def Let_def near_nonempty)
next
  assume h: "\<not> (\<exists>n\<in>set (existing st). \<bar>n - destination c\<bar> \<le> 2)"
  then have "destination c \<notin> set (existing st)" by force
  with h show "fix_choice S c st =
        (c, st\<lparr>by_num := AList.update (destination c)
                  (New \<lparr>section_number = destination c, sec_title = None,
                        sec_text = ''[Section '' @ str_int (destination c) @ '' - not found in source]'',
                        sec_choices = [], sec_node_type = Some ''ending_neutral''\<rparr>) (by_num st),
               existing := existing st @ [destination c],
               report := report st @
                 [''Created stub section '' @ str_int (destination c)
                    @ '' (referenced by section '' @ str_int S @ '')'']\<rparr>)"
    by (simp add: fix_choice_def Let_def near_nonempty stub_section_def not_found_text_def
        created_line_def)
next
  assume "\<exists>n\<in>set (existing_sections rst). \<bar>n - destination c\<bar> \<le> 2"
  then show "parsed (snd (repair_choice S c rst)) = parsed rst"
    and "existing_sections (snd (repair_choice S c rst)) = existing_sections rst"
    by (simp_all add: repair_choice_def Let_def near_nonempty)
next
  assume h: "\<not> (\<exists>n\<in>set (existing_sections rst). \<bar>n - destination c\<bar> \<le> 2)"
  then have "destination c \<notin> set (existing_sections rst)" by force
  with h show "repair_choice S c rst =
        (c, rst\<lparr>parsed := AList.update (destination c)
                  \<lparr>section_number = destination c,
                   sec_title = Some (''Section '' @ str_int (destination c)),
                   sec_text = ''[Section '' @ str_int (destination c) @ '' - not found in source]'',
                   sec_choices = [], sec_node_type = Some ''ending_neutral''\<rparr> (parsed rst),
               existing_sections := existing_sections rst @ [destination c],
               link_changes := link_changes rst @
                 [''Created stub section '' @ str_int (destination c)
                    @ '' (referenced by section '' @ str_int S @ '').'']\<rparr>)"
    by (simp add: repair_choice_def Let_def near_nonempty stub_payload_def not_found_text_def
        created_stub_line_def)
next
  have "\<forall>s\<in>set (fst (fix_broken_links sections)).
           section_number s \<in> section_number ` set sections \<or> s = stub_section (section_number s)"
    by (rule fix_broken_links_stubs [OF prod.collapse [symmetric]])
  then show "\<forall>s\<in>set (fst (fix_broken_links sections)).
         section_number s \<in> section_number ` set sections
         \<or> s = \<lparr>section_number = section_number s, sec_title = None,
                 sec_text = ''[Section '' @ str_int (section_number s) @ '' - not found in source]'',
                 sec_choices = [], sec_node_type = Some ''ending_neutral''\<rparr>"
    by (simp add: stub_section_def not_found_text_def)
qed (simp_all add: scenario_C_fixed scenario_C_repaired)

theorem stub_iff_no_neighbour_witness:
  "(\<exists>n\<in>set [1, 48 :: int]. \<bar>n - 50\<bar> \<le> 2)
   \<and> existing (snd (fix_choice 1 \<lparr>label = ''Take the left path.'', destination = 50\<rparr>
         \<lparr>by_num = [], existing = [1, 48], report = []\<rparr>)) = [1, 48]
   \<and> existing_sections (snd (repair_choice 1 \<lparr>label = ''Take the left path.'', destination = 50\<rparr>
         \<lparr>parsed = [], existing_sections = [1, 48], link_changes = []\<rparr>)) = [1, 48]
   \<and> \<not> (\<exists>n\<in>set [1 :: int]. \<bar>n - 50\<bar> \<le> 2)
   \<and> existing (snd (fix_choice 1 \<lparr>label = ''Take the left path.'', destination = 50\<rparr>
         \<lparr>by_num = [], existing = [1], report = []\<rparr>)) = [1, 50]
   \<and> existing_sections (snd (repair_choice 1 \<lparr>label = ''Take the left path.'', destination = 50\<rparr>
         \<lparr>parsed = [], existing_sections = [1], link_changes = []\<rparr>)) = [1, 50]
   \<and> (\<exists>s\<in>set (fst (fix_broken_links scenario_C)).
        section_number s \<notin> section_number ` set scenario_C
        \<and> s = \<lparr>section_number = 50, sec_title = None,
                sec_text = ''[Section 50 - not found in source]'',
                sec_choices = [], sec_node_type = Some ''ending_neutral''\<rparr>)"
proof -
  let ?c = "\<lparr>label = ''Take the left path.'', destination = 50\<rparr>"
  have near: "\<exists>n\<in>set [1, 48 :: int]. \<bar>n - 50\<bar> \<le> 2" by simp
  have far: "\<not> (\<exists>n\<in>set [1 :: int]. \<bar>n - 50\<bar> \<le> 2)" by simp
  note t1 = stub_iff_no_neighbour [where st = "\<lparr>by_num = [], existing = [1, 48], report = []\<rparr>"
      and c = ?c and S = 1 and sections = scenario_C
      and rst = "\<lparr>parsed = [], existing_sections = [1, 48], link_changes = []\<rparr>"]
  note t2 = stub_iff_no_neighbour [where st = "\<lparr>by_num = [], existing = [1], report = []\<rparr>"
      and c = ?c and S = 1 and sections = scenario_C
      and rst = "\<lparr>parsed = [], existing_sections = [1], link_changes = []\<rparr>"]
  from t1 near have a: "existing (snd (fix_choice 1 ?c
         \<lparr>by_num = [], existing = [1, 48], report = []\<rparr>)) = [1, 48]"
    and b: "existing_sections (snd (repair_choice 1 ?c
         \<lparr>parsed = [], existing_sections = [1, 48], link_changes = []\<rparr>)) = [1, 48]"
    by simp_all
  from t2 far have c: "existing (snd (fix_choice 1 ?c
         \<lparr>by_num = [], existing = [1], report = []\<rparr>)) = [1, 50]"
    and d: "existing_sections (snd (repair_choice 1 ?c
         \<lparr>parsed = [], existing_sections = [1], link_changes = []\<rparr>)) = [1, 50]"
    by simp_all
  have e: "\<exists>s\<in>set (fst (fix_broken_links scenario_C)).
        section_number s \<notin> section_number ` set scenario_C
        \<and> s = \<lparr>section_number = 50, sec_title = None,
                sec_text = ''[Section 50 - not found in source]'',
                sec_choices = [], sec_node_type = Some ''ending_neutral''\<rparr>"
    using t2 by (simp add: scenario_C_def fork_def)
  from near far a b c d e show ?thesis by blast
qed

section \<open>Identifiers and node types of the built nodes\<close>


lemma infer_node_type_not_normal: "infer_node_type txt False \<noteq> ''normal''"
  by (simp add: infer_node_type_def Let_def)

lemma infer_node_type_valid: "infer_node_type txt b \<in> set VALID_NODE_TYPES"
  by (simp add: infer_node_type_def Let_def VALID_NODE_TYPES_def)

lemma typed_payload_no_bare_normal: "typed_payload p \<Longrightarrow> no_bare_normal p"
  by (simp add: typed_payload_def no_bare_normal_def infer_node_type_not_normal)

lemma build_story_node_ok:
  "canonical_id (build_story_node cb it s) \<and> normal_iff_choices (build_story_node cb it s)"
  by (simp add: build_story_node_def Let_def canonical_id_def normal_iff_choices_def section_id_def)

lemma story_node_canonical: "canonical_id (story_node n p)"
  by (simp add: story_node_def Let_def canonical_id_def section_id_def)

lemma story_node_typed:
  assumes "no_bare_normal p"
  shows "normal_iff_choices (story_node n p)"
proof (cases "sec_choices p = []")
  case True
  with assms obtain t where t: "sec_node_type p = Some t" "t \<noteq> ''normal''"
    by (auto simp: no_bare_normal_def)
  with True show ?thesis
    by (simp add: story_node_def Let_def normal_iff_choices_def infer_node_type_not_normal)
next
  case False
  then show ?thesis
    by (simp add: story_node_def Let_def normal_iff_choices_def)
qed

lemma promote_first_cases:
  "n \<in> set (promote_first P ns) \<Longrightarrow>
     n \<in> set ns \<or> (\<exists>m\<in>set ns. P m \<and> n = m\<lparr>node_type := ''ending_win''\<rparr>)"
  by (induction ns) (auto split: if_splits)

lemma promote_first_keeps:
  assumes "\<forall>m\<in>set ns. Q m" and "\<forall>m. P m \<longrightarrow> Q m \<longrightarrow> Q (m\<lparr>node_type := ''ending_win''\<rparr>)"
  shows "\<forall>n\<in>set (promote_first P ns). Q n"
  using assms promote_first_cases by blast

lemma canonical_id_retyped: "canonical_id (m\<lparr>node_type := t\<rparr>) = canonical_id m"
  by (simp add: canonical_id_def)

lemma ensure_win_keeps:
  assumes "\<forall>m\<in>set ns. canonical_id m \<and> normal_iff_choices m"
  shows "\<forall>n\<in>set (ensure_win ns). canonical_id n \<and> normal_iff_choices n"
proof -
  let ?Q = "\<lambda>n. canonical_id n \<and> normal_iff_choices n"
  have step: "\<forall>n\<in>set (promote_first P ms). ?Q n"
    if "\<forall>m\<in>set ms. ?Q m" "\<forall>m. P m \<longrightarrow> node_type m = ''ending_neutral''" for P ms
  proof (rule promote_first_keeps [OF that(1)], intro allI impI)
    fix m assume "P m" "?Q m"
    with that(2) have "node_type m = ''ending_neutral''" by blast
    with \<open>?Q m\<close> show "?Q (m\<lparr>node_type := ''ending_win''\<rparr>)"
      by (auto simp: canonical_id_def normal_iff_choices_def)
  qed
  have 1: "\<forall>n\<in>set (promote_first cue_ending ns). ?Q n"
    by (rule step [OF assms]) (simp add: cue_ending_def)
  have 2: "\<forall>n\<in>set (promote_first (\<lambda>n. node_type n = ''ending_neutral'') (promote_first cue_ending ns)). ?Q n"
    by (rule step [OF 1]) simp
  from assms 1 2 show ?thesis by (simp add: ensure_win_def Let_def)
qed

lemma repair_choices_length:
  "repair_choices src cs st = (cs', st') \<Longrightarrow> length cs' = length cs"
proof (induction cs arbitrary: st cs' st')
  case Nil
  then show ?case by simp
next
  case (Cons c cs)
  obtain c1 st1 where s1: "repair_choice src c st = (c1, st1)" by (cases "repair_choice src c st")
  obtain cs2 st2 where s2: "repair_choices src cs st1 = (cs2, st2)" by (cases "repair_choices src cs st1")
  from Cons.prems s1 s2 have "cs' = c1 # cs2" by auto
  with Cons.IH [OF s2] show ?case by simp
qed

lemma no_bare_normal_stub: "no_bare_normal (stub_payload d)"
  by (simp add: no_bare_normal_def stub_payload_def)

lemma repair_choice_parsed:
  "repair_choice src c st = (c', st') \<Longrightarrow>
     parsed st' = parsed st \<or> parsed st' = AList.update (destination c) (stub_payload (destination c)) (parsed st)"
  by (auto simp: repair_choice_def Let_def split: if_splits)

lemma repair_choice_nbn:
  assumes "repair_choice src c st = (c', st')" and "\<forall>k p. map_of (parsed st) k = Some p \<longrightarrow> no_bare_normal p"
  shows "\<forall>k p. map_of (parsed st') k = Some p \<longrightarrow> no_bare_normal p"
  using repair_choice_parsed [OF assms(1)] assms(2)
  by (auto simp: update_conv' no_bare_normal_stub split: if_splits)

lemma repair_choices_nbn:
  "repair_choices src cs st = (cs', st') \<Longrightarrow>
   \<forall>k p. map_of (parsed st) k = Some p \<longrightarrow> no_bare_normal p \<Longrightarrow>
   \<forall>k p. map_of (parsed st') k = Some p \<longrightarrow> no_bare_normal p"
proof (induction cs arbitrary: st cs' st')
  case Nil
  then show ?case by simp
next
  case (Cons c cs)
  obtain c1 st1 where s1: "repair_choice src c st = (c1, st1)" by (cases "repair_choice src c st")
  obtain cs2 st2 where s2: "repair_choices src cs st1 = (cs2, st2)" by (cases "repair_choices src cs st1")
  from Cons.prems(1) s1 s2 have eq: "st' = st2" by auto
  from Cons.IH [OF s2 repair_choice_nbn [OF s1 Cons.prems(2)]] eq show ?case by simp
qed

lemma repair_nodes_nbn:
  "\<forall>k p. map_of (parsed st) k = Some p \<longrightarrow> no_bare_normal p \<Longrightarrow>
   \<forall>k p. map_of (parsed (repair_nodes ks st)) k = Some p \<longrightarrow> no_bare_normal p"
proof (induction ks arbitrary: st)
  case Nil
  then show ?case by simp
next
  case (Cons k ks)
  show ?case
  proof (cases "map_of (parsed st) k")
    case None
    with Cons show ?thesis by simp
  next
    case (Some nd)
    obtain cs1 st1 where s1: "repair_choices (section_number nd) (sec_choices nd) st = (cs1, st1)"
      by (cases "repair_choices (section_number nd) (sec_choices nd) st")
    let ?st2 = "st1\<lparr>parsed := AList.update k (nd\<lparr>sec_choices := cs1\<rparr>) (parsed st1)\<rparr>"
    have len: "length cs1 = length (sec_choices nd)" by (rule repair_choices_length [OF s1])
    from Cons.prems Some have "no_bare_normal nd" by blast
    with len have nd': "no_bare_normal (nd\<lparr>sec_choices := cs1\<rparr>)"
      by (auto simp: no_bare_normal_def)
    have "\<forall>k' p. map_of (parsed ?st2) k' = Some p \<longrightarrow> no_bare_normal p"
      using repair_choices_nbn [OF s1 Cons.prems] nd'
      by (auto simp: update_conv' split: if_splits)
    from Cons.IH [OF this] Some s1 show ?thesis by simp
  qed
qed

lemma build_story_nodes_ok:
  assumes "distinct (map fst parsed0)" and "\<forall>(k, p)\<in>set parsed0. typed_payload p"
  shows "\<forall>n\<in>set (fst (build_story parsed0 changes0)). canonical_id n \<and> normal_iff_choices n"
proof -
  let ?ks = "map fst (sort_key (\<lambda>(k, item). section_number item) parsed0)"
  let ?init = "\<lparr>parsed = parsed0, existing_sections = map fst parsed0, link_changes = changes0\<rparr>"
  let ?st = "repair_nodes ?ks ?init"
  have p0: "\<forall>k p. map_of (parsed ?init) k = Some p \<longrightarrow> no_bare_normal p"
  proof (intro allI impI)
    fix k p assume "map_of (parsed ?init) k = Some p"
    then have "(k, p) \<in> set parsed0" by (auto dest: map_of_SomeD)
    with assms(2) show "no_bare_normal p" by (auto intro: typed_payload_no_bare_normal)
  qed
  note nbn = repair_nodes_nbn [OF p0, of ?ks]
  have d: "distinct (map fst (parsed ?st))"
    by (rule distinct_repair_nodes) (simp add: assms(1))
  let ?built = "map (\<lambda>(n, payload). story_node n payload) (sort_key fst (parsed ?st))"
  have built: "\<forall>n\<in>set ?built. canonical_id n \<and> normal_iff_choices n"
  proof
    fix n assume "n \<in> set ?built"
    then obtain k p where kp: "(k, p) \<in> set (parsed ?st)" "n = story_node k p" by auto
    from kp(1) d have "map_of (parsed ?st) k = Some p" by simp
    with nbn have "no_bare_normal p" by blast
    with kp(2) show "canonical_id n \<and> normal_iff_choices n"
      by (simp add: story_node_canonical story_node_typed)
  qed
  have "fst (build_story parsed0 changes0) = ensure_win (entry_first ?built)"
    by (simp add: build_story_def repair_links_def Let_def)
  moreover have "\<forall>n\<in>set (entry_first ?built). canonical_id n \<and> normal_iff_choices n"
    using built unfolding set_entry_first .
  ultimately show ?thesis using ensure_win_keeps by simp
qed

section \<open>Properties of the auto-fixer\<close>


lemma infer_node_type_validate_ok:
  "infer_node_type_validate n \<in> set VALID_NODE_TYPES"
  "(infer_node_type_validate n = ''normal'') = (choices n \<noteq> [])"
  by (simp_all add: infer_node_type_validate_def Let_def VALID_NODE_TYPES_def)

lemma fix_node_fields:
  assumes "fix_node n = Inr n'"
  shows "node_id n' = node_id n" "node_number n' = node_number n" "choices n' = choices n"
    and "choices n' \<noteq> [] \<longrightarrow> node_type n' = ''normal''"
    and "node_type n' \<in> set VALID_NODE_TYPES"
    and "normal_iff_choices n \<longrightarrow> normal_iff_choices n'"
  using assms infer_node_type_validate_ok [of n]
  by (auto simp: fix_node_def normal_iff_choices_def VALID_NODE_TYPES_def
      split: option.splits if_splits)

lemma fix_nodes_elems:
  "fix_nodes ns = Inr ns' \<Longrightarrow> \<forall>n'\<in>set ns'. \<exists>n\<in>set ns. fix_node n = Inr n'"
proof (induction ns arbitrary: ns')
  case Nil
  then show ?case by simp
next
  case (Cons n ns)
  then show ?case by (auto split: sum.splits)
qed

lemma fix_nodes_ids: "fix_nodes ns = Inr ns' \<Longrightarrow> map node_id ns' = map node_id ns"
proof (induction ns arbitrary: ns')
  case Nil
  then show ?case by simp
next
  case (Cons n ns)
  then show ?case by (auto split: sum.splits simp: fix_node_fields(1))
qed

lemma fix_nodes_total:
  "\<forall>n\<in>set ns. int_literal (last_segment (node_id n)) \<noteq> None \<Longrightarrow> \<exists>ns'. fix_nodes ns = Inr ns'"
proof (induction ns)
  case Nil
  then show ?case by simp
next
  case (Cons n ns)
  then obtain ns' where "fix_nodes ns = Inr ns'" by auto
  moreover from Cons.prems obtain n' where "fix_node n = Inr n'"
    by (auto simp: fix_node_def split: option.splits)
  ultimately show ?case by simp
qed

lemma dedupe_ids_subset: "set (dedupe_ids ns seen) \<subseteq> set ns"
  by (induction ns seen rule: dedupe_ids.induct) auto

lemma dedupe_ids_ids:
  "node_id ` set (dedupe_ids ns seen) = node_id ` set ns - set seen - {[]}"
  by (induction ns seen rule: dedupe_ids.induct) auto

lemma make_stubs_bare:
  "\<forall>n\<in>set (make_stubs ms k). choices n = [] \<and> node_type n = ''ending_neutral''"
  by (induction ms k rule: make_stubs.induct) (auto simp: stub_node_def)

lemma add_stubs_elems:
  "n \<in> set (add_stubs ms ns) \<Longrightarrow>
     n \<in> set ns \<or> (choices n = [] \<and> node_type n = ''ending_neutral'')"
  using make_stubs_bare by (auto simp: add_stubs_def split: if_splits)

lemma promote_first_wins: "list_ex P ns \<Longrightarrow> list_ex is_win (promote_first P ns)"
  by (induction ns) (auto simp: is_win_def)

lemma guarantee_win_wins: "list_ex is_win (guarantee_win ns)"
proof (cases "list_ex is_win ns")
  case True
  then show ?thesis by (simp add: guarantee_win_def)
next
  case False
  show ?thesis
  proof (cases "list_ex (\<lambda>n. node_type n = ''ending_neutral'' \<and> choices n = []) ns")
    case True
    with False promote_first_wins [OF True] show ?thesis by (simp add: guarantee_win_def)
  next
    case no: False
    have "is_win victory_node" by (simp add: is_win_def victory_node_def)
    with False no show ?thesis by (simp add: guarantee_win_def)
  qed
qed

lemma guarantee_win_elems:
  "n \<in> set (guarantee_win ns) \<Longrightarrow>
     n \<in> set ns \<or> n = victory_node
     \<or> (\<exists>m\<in>set ns. node_type m = ''ending_neutral'' \<and> choices m = []
           \<and> n = m\<lparr>node_type := ''ending_win''\<rparr>)"
  by (auto simp: guarantee_win_def split: if_splits dest!: promote_first_cases)

lemma auto_fix_unfold:
  assumes "auto_fix nodes0 = Inr out"
  obtains fixed where "fix_nodes (dedupe_ids nodes0 []) = Inr fixed"
    and "set out = set (guarantee_win (add_stubs
           (missing_ids (map node_id (dedupe_ids nodes0 [])) fixed) (map cut_labels fixed)))"
  using assms by (auto simp: auto_fix_def Let_def set_entry_first split: sum.splits)

lemma auto_fix_elems:
  assumes "auto_fix nodes0 = Inr out" and "n \<in> set out"
  shows "(\<exists>m\<in>set nodes0. \<exists>m'. fix_node m = Inr m' \<and> (n = cut_labels m'
             \<or> (node_type m' = ''ending_neutral'' \<and> choices m' = []
                  \<and> n = (cut_labels m')\<lparr>node_type := ''ending_win''\<rparr>)))
         \<or> (choices n = [] \<and> (node_type n = ''ending_neutral'' \<or> node_type n = ''ending_win''))"
proof -
  from assms(1) obtain fixed where f: "fix_nodes (dedupe_ids nodes0 []) = Inr fixed"
    and out: "set out = set (guarantee_win (add_stubs
           (missing_ids (map node_id (dedupe_ids nodes0 [])) fixed) (map cut_labels fixed)))"
    by (rule auto_fix_unfold)
  let ?ms = "missing_ids (map node_id (dedupe_ids nodes0 [])) fixed"
  have src: "\<exists>m\<in>set nodes0. fix_node m = Inr m'" if "m' \<in> set fixed" for m'
    using fix_nodes_elems [OF f] that dedupe_ids_subset [of nodes0 "[]"] by blast
  from assms(2) out have "n \<in> set (guarantee_win (add_stubs ?ms (map cut_labels fixed)))" by simp
  then consider (old) "n \<in> set (add_stubs ?ms (map cut_labels fixed))"
    | (victory) "n = victory_node"
    | (promoted) m where "m \<in> set (add_stubs ?ms (map cut_labels fixed))"
        "node_type m = ''ending_neutral''" "choices m = []" "n = m\<lparr>node_type := ''ending_win''\<rparr>"
    using guarantee_win_elems by blast
  then show ?thesis
  proof cases
    case old
    then show ?thesis using add_stubs_elems [OF old] src by auto
  next
    case victory
    then show ?thesis by (simp add: victory_node_def)
  next
    case promoted
    from add_stubs_elems [OF promoted(1)] show ?thesis
    proof
      assume "m \<in> set (map cut_labels fixed)"
      then obtain m' where m': "m' \<in> set fixed" "m = cut_labels m'" by auto
      with promoted have "node_type m' = ''ending_neutral''" "choices m' = []"
        by (auto simp: cut_labels_def)
      with m' promoted(4) src show ?thesis by blast
    next
      assume "choices m = [] \<and> node_type m = ''ending_neutral''"
      with promoted(4) show ?thesis by simp
    qed
  qed
qed

lemma cut_labels_fields:
  "node_id (cut_labels m) = node_id m" "node_number (cut_labels m) = node_number m"
  "node_type (cut_labels m) = node_type m" "(choices (cut_labels m) = []) = (choices m = [])"
  by (simp_all add: cut_labels_def)

lemma auto_fix_choices_normal:
  assumes "auto_fix nodes0 = Inr out"
  shows "\<forall>n\<in>set out. choices n \<noteq> [] \<longrightarrow> node_type n = ''normal''"
proof (intro ballI impI)
  fix n assume n: "n \<in> set out" and c: "choices n \<noteq> []"
  from auto_fix_elems [OF assms n] c obtain m m' where
    m: "fix_node m = Inr m'" "n = cut_labels m'
             \<or> (node_type m' = ''ending_neutral'' \<and> choices m' = []
                  \<and> n = (cut_labels m')\<lparr>node_type := ''ending_win''\<rparr>)"
    by auto
  from m(2) c have n': "n = cut_labels m'" by (auto simp: cut_labels_fields)
  with c have "choices m' \<noteq> []" by (simp add: cut_labels_fields)
  with fix_node_fields(4) [OF m(1)] n' show "node_type n = ''normal''"
    by (simp add: cut_labels_fields)
qed

lemma auto_fix_keeps_typing:
  assumes "auto_fix nodes0 = Inr out" and "\<forall>n\<in>set nodes0. normal_iff_choices n"
  shows "\<forall>n\<in>set out. normal_iff_choices n"
proof
  fix n assume n: "n \<in> set out"
  from auto_fix_elems [OF assms(1) n] show "normal_iff_choices n"
  proof
    assume "\<exists>m\<in>set nodes0. \<exists>m'. fix_node m = Inr m' \<and> (n = cut_labels m'
             \<or> (node_type m' = ''ending_neutral'' \<and> choices m' = []
                  \<and> n = (cut_labels m')\<lparr>node_type := ''ending_win''\<rparr>))"
    then obtain m m' where m: "m \<in> set nodes0" "fix_node m = Inr m'"
      "n = cut_labels m' \<or> (node_type m' = ''ending_neutral'' \<and> choices m' = []
                  \<and> n = (cut_labels m')\<lparr>node_type := ''ending_win''\<rparr>)" by blast
    from assms(2) m(1) fix_node_fields(6) [OF m(2)] have "normal_iff_choices m'" by blast
    with m(3) show ?thesis
      by (auto simp: normal_iff_choices_def cut_labels_fields)
  next
    assume "choices n = [] \<and> (node_type n = ''ending_neutral'' \<or> node_type n = ''ending_win'')"
    then show ?thesis by (auto simp: normal_iff_choices_def)
  qed
qed

lemma auto_fix_wins:
  assumes "auto_fix nodes0 = Inr out"
  shows "list_ex is_win out"
proof -
  from assms obtain fixed where
    out: "set out = set (guarantee_win (add_stubs
           (missing_ids (map node_id (dedupe_ids nodes0 [])) fixed) (map cut_labels fixed)))"
    by (rule auto_fix_unfold)
  from guarantee_win_wins show ?thesis unfolding list_ex_iff out by blast
qed

lemma auto_fix_canonical:
  assumes can: "\<forall>n\<in>set nodes0. canonical_id n"
    and closed: "\<forall>n\<in>set nodes0. \<forall>c\<in>set (choices n). next_id c \<in> node_id ` set nodes0"
  shows "\<exists>out. auto_fix nodes0 = Inr out \<and> (\<forall>n\<in>set out. canonical_id n)"
proof -
  let ?d = "dedupe_ids nodes0 []"
  have sub: "set ?d \<subseteq> set nodes0" by (rule dedupe_ids_subset)
  have lit: "int_literal (last_segment (node_id n)) \<noteq> None" if "n \<in> set nodes0" for n
  proof -
    from can that have "node_id n = section_id (node_number n)"
      by (simp add: canonical_id_def section_id_def)
    then show ?thesis by (simp add: last_segment_section_id int_literal_str_int)
  qed
  with sub have "\<forall>n\<in>set ?d. int_literal (last_segment (node_id n)) \<noteq> None" by blast
  from fix_nodes_total [OF this] obtain fixed where f: "fix_nodes ?d = Inr fixed" by blast
  have ne: "node_id n \<noteq> []" if "n \<in> set nodes0" for n
    using can that by (simp add: canonical_id_def)
  have ids: "node_id ` set ?d = node_id ` set nodes0"
    using ne by (auto simp: dedupe_ids_ids)
  have fixed_src: "\<forall>m'\<in>set fixed. \<exists>m\<in>set nodes0. fix_node m = Inr m'"
    using fix_nodes_elems [OF f] sub by blast
  have "missing_ids (map node_id ?d) fixed = []"
  proof -
    have "nxt \<in> set (map node_id ?d)"
      if "nxt \<in> set (concat (map (\<lambda>n. map next_id (choices n)) fixed))" for nxt
    proof -
      from that obtain m' c where mc: "m' \<in> set fixed" "c \<in> set (choices m')" "nxt = next_id c"
        by auto
      from fixed_src mc(1) obtain m where m: "m \<in> set nodes0" "fix_node m = Inr m'" by blast
      from fix_node_fields(3) [OF m(2)] mc(2) have "c \<in> set (choices m)" by simp
      with closed m(1) mc(3) have "nxt \<in> node_id ` set nodes0" by blast
      then show ?thesis using ids by simp
    qed
    then show ?thesis by (auto simp: missing_ids_def filter_empty_conv)
  qed
  then have out: "auto_fix nodes0 = Inr (entry_first (guarantee_win (map cut_labels fixed)))"
    using f by (simp add: auto_fix_def Let_def add_stubs_def)
  have "canonical_id n" if "n \<in> set (guarantee_win (map cut_labels fixed))" for n
  proof -
    have base: "canonical_id (cut_labels m')" if "m' \<in> set fixed" for m'
    proof -
      from fixed_src that obtain m where m: "m \<in> set nodes0" "fix_node m = Inr m'" by blast
      with can fix_node_fields(1,2) [OF m(2)] show ?thesis
        by (simp add: canonical_id_def cut_labels_fields)
    qed
    from guarantee_win_elems [OF that] show ?thesis
    proof (elim disjE)
      assume "n \<in> set (map cut_labels fixed)"
      with base show ?thesis by auto
    next
      assume "n = victory_node"
      moreover have "str_int 999 = ''999''" by code_simp
      ultimately show ?thesis by (simp add: canonical_id_def victory_node_def)
    next
      assume "\<exists>m\<in>set (map cut_labels fixed). node_type m = ''ending_neutral'' \<and> choices m = []
           \<and> n = m\<lparr>node_type := ''ending_win''\<rparr>"
      with base show ?thesis by (auto simp: canonical_id_retyped)
    qed
  qed
  with out show ?thesis by (simp add: set_entry_first)
qed

section \<open>The example stores, evaluated\<close>


lemma cave_story_fixed:
  "auto_fix cave_story =
     Inr [\<lparr>node_id = ''section_1'', node_number = 1, title = ''Forest Road'',
           node_text = ''A fork in the forest road.'', node_type = ''normal'',
           choices = [\<lparr>choice_text = ''Enter the cave.'', next_id = ''cave''\<rparr>]\<rparr>,
          \<lparr>node_id = ''cave'', node_number = 2, title = ''Missing Source Section'',
           node_text = ''[Section 2 - not found in source]'', node_type = ''ending_win'',
           choices = []\<rparr>]"
  by code_simp

lemma bare_normal_story_fixed:
  "auto_fix bare_normal_story =
     Inr [\<lparr>node_id = ''section_1'', node_number = 1, title = ''Forest Road'',
           node_text = ''A fork in the forest road.'', node_type = ''normal'', choices = []\<rparr>,
          victory_node]"
  by code_simp

lemma two_endings_fixed:
  "auto_fix [quiet_ending, cue_ending_node] =
     Inr [quiet_ending\<lparr>node_type := ''ending_win''\<rparr>, cue_ending_node]"
  by code_simp

lemma cue_ending_examples: "\<not> cue_ending quiet_ending" "cue_ending cue_ending_node"
  by code_simp+

lemma two_endings_ensured:
  "ensure_win [quiet_ending, cue_ending_node] =
     [quiet_ending, cue_ending_node\<lparr>node_type := ''ending_win''\<rparr>]"
  by code_simp

lemma doomed_story:
  "fst (build_story doomed_parsed []) =
     [\<lparr>node_id = ''section_1'', node_number = 1, title = ''Forest Road'',
       node_text = ''The wolves close in and you are killed. The End.'',
       node_type = ''ending_death'', choices = []\<rparr>]"
  by code_simp

lemma doomed_typed: "list_all typed_payload (map snd doomed_parsed)"
  by code_simp

lemma scenario_B_typed: "list_all typed_payload (map snd scenario_B_parsed)"
  by code_simp

section \<open>Canonical ids and node types\<close>


text \<open>
  Claim C5, as amended. Every node that \<^verbatim>\<open>build_story_nodes\<close> (and so \<^verbatim>\<open>main\<close> of
  \<^verbatim>\<open>build_story.py\<close>) builds, and every node that \<^verbatim>\<open>build_story\<close> of
  \<^verbatim>\<open>repair_story_text.py\<close> builds from payloads typed as
  \<^verbatim>\<open>extract_section_payload\<close> types them, has the id "section\_" followed by its number
  and is typed \<^verbatim>\<open>normal\<close> exactly when it has choices. \<^verbatim>\<open>auto_fix\<close> types every node
  with choices as \<^verbatim>\<open>normal\<close>, keeps the typing rule when its input obeys it, and returns
  nodes with canonical ids when its input has canonical ids and no dangling \<^verbatim>\<open>next\<close>.
\<close>

theorem built_nodes_canonical_and_typed:
  "(\<forall>n\<in>set (build_story_nodes clean_body infer_title sections).
       canonical_id n \<and> normal_iff_choices n)
   \<and> (\<forall>n\<in>set (fst (build_story_main clean_body infer_title sections)).
       canonical_id n \<and> normal_iff_choices n)
   \<and> (distinct (map fst payloads) \<and> (\<forall>(k, p)\<in>set payloads. typed_payload p) \<longrightarrow>
        (\<forall>n\<in>set (fst (build_story payloads changes)). canonical_id n \<and> normal_iff_choices n))
   \<and> (auto_fix nodes = Inr out \<longrightarrow>
        (\<forall>n\<in>set out. (choices n \<noteq> [] \<longrightarrow> node_type n = ''normal'')
           \<and> ((\<forall>m\<in>set nodes. normal_iff_choices m) \<longrightarrow> normal_iff_choices n)))
   \<and> ((\<forall>n\<in>set nodes. canonical_id n \<and> (\<forall>c\<in>set (choices n). next_id c \<in> node_id ` set nodes)) \<longrightarrow>
        (\<exists>fixed. auto_fix nodes = Inr fixed \<and> (\<forall>n\<in>set fixed. canonical_id n)))"
proof (intro conjI impI)
  show a: "\<forall>n\<in>set (build_story_nodes clean_body infer_title sections).
       canonical_id n \<and> normal_iff_choices n" for sections
    by (simp add: build_story_nodes_def build_story_node_ok)
  show "\<forall>n\<in>set (fst (build_story_main clean_body infer_title sections)).
       canonical_id n \<and> normal_iff_choices n"
    using a by (simp add: build_story_main_def set_entry_first split: prod.splits)
next
  assume "distinct (map fst payloads) \<and> (\<forall>(k, p)\<in>set payloads. typed_payload p)"
  then show "\<forall>n\<in>set (fst (build_story payloads changes)). canonical_id n \<and> normal_iff_choices n"
    using build_story_nodes_ok by blast
next
  assume f: "auto_fix nodes = Inr out"
  show "\<forall>n\<in>set out. (choices n \<noteq> [] \<longrightarrow> node_type n = ''normal'')
           \<and> ((\<forall>m\<in>set nodes. normal_iff_choices m) \<longrightarrow> normal_iff_choices n)"
    using auto_fix_choices_normal [OF f] auto_fix_keeps_typing [OF f] by blast
next
  assume "\<forall>n\<in>set nodes. canonical_id n \<and> (\<forall>c\<in>set (choices n). next_id c \<in> node_id ` set nodes)"
  then show "\<exists>fixed. auto_fix nodes = Inr fixed \<and> (\<forall>n\<in>set fixed. canonical_id n)"
    by (intro auto_fix_canonical) blast+
qed

lemma scenario_B_story_fixed:
  "auto_fix (fst (build_story scenario_B_parsed [])) = Inr (fst (build_story scenario_B_parsed []))"
  by code_simp

theorem built_nodes_canonical_and_typed_witness:
  "distinct (map fst scenario_B_parsed) \<and> list_all typed_payload (map snd scenario_B_parsed)
   \<and> fst (build_story scenario_B_parsed []) \<noteq> []
   \<and> list_all (\<lambda>n. canonical_id n \<and> normal_iff_choices n) (fst (build_story scenario_B_parsed []))
   \<and> list_all (\<lambda>n. list_all (\<lambda>c. next_id c \<in> node_id ` set (fst (build_story scenario_B_parsed [])))
        (choices n)) (fst (build_story scenario_B_parsed []))
   \<and> auto_fix (fst (build_story scenario_B_parsed [])) = Inr (fst (build_story scenario_B_parsed []))
   \<and> build_story_nodes (\<lambda>t. t) (\<lambda>t. ''Shadows In The Forest'') scenario_B \<noteq> []
   \<and> list_all (\<lambda>n. canonical_id n \<and> normal_iff_choices n)
       (build_story_nodes (\<lambda>t. t) (\<lambda>t. ''Shadows In The Forest'') scenario_B)"
proof -
  let ?nodes = "fst (build_story scenario_B_parsed [])"
  note t = built_nodes_canonical_and_typed [where payloads = scenario_B_parsed and changes = "[]"
      and nodes = ?nodes and out = ?nodes and sections = scenario_B
      and clean_body = "\<lambda>t. t" and infer_title = "\<lambda>t. ''Shadows In The Forest''"]
  have d: "distinct (map fst scenario_B_parsed)" by (simp add: scenario_B_parsed_def)
  have ty: "list_all typed_payload (map snd scenario_B_parsed)" by (rule scenario_B_typed)
  then have ty': "\<forall>(k, p)\<in>set scenario_B_parsed. typed_payload p"
    by (auto simp: list_all_iff)
  have ne: "?nodes \<noteq> []" by (simp add: scenario_B_story)
  from t d ty' have ok: "list_all (\<lambda>n. canonical_id n \<and> normal_iff_choices n) ?nodes"
    by (simp add: list_all_iff)
  have cl: "list_all (\<lambda>n. list_all (\<lambda>c. next_id c \<in> node_id ` set ?nodes) (choices n)) ?nodes"
    using build_story_closed [OF prod.collapse [symmetric] d, of "[]"] by (simp add: list_all_iff)
  have ne2: "build_story_nodes (\<lambda>t. t) (\<lambda>t. ''Shadows In The Forest'') scenario_B \<noteq> []"
    by (simp add: build_story_nodes_def scenario_B_def)
  from t have ok2: "list_all (\<lambda>n. canonical_id n \<and> normal_iff_choices n)
       (build_story_nodes (\<lambda>t. t) (\<lambda>t. ''Shadows In The Forest'') scenario_B)"
    by (simp add: list_all_iff)
  from d ty ne ok cl scenario_B_story_fixed ne2 ok2 show ?thesis by blast
qed

theorem auto_fix_counterexample:
  "(\<exists>out. auto_fix cave_story = Inr out
      \<and> (\<exists>n\<in>set out. node_id n = ''cave'' \<and> node_number n = 2 \<and> \<not> canonical_id n))
   \<and> (\<exists>out. auto_fix bare_normal_story = Inr out
      \<and> (\<exists>n\<in>set out. node_type n = ''normal'' \<and> choices n = [] \<and> \<not> normal_iff_choices n))"
  by (simp add: cave_story_fixed bare_normal_story_fixed canonical_id_def normal_iff_choices_def str_int_def)

section \<open>The win ending\<close>


lemma promote_first_at:
  "i < length ns \<Longrightarrow> P (ns ! i) \<Longrightarrow> \<forall>j<i. \<not> P (ns ! j) \<Longrightarrow>
     promote_first P ns = ns[i := (ns ! i)\<lparr>node_type := ''ending_win''\<rparr>]"
proof (induction ns arbitrary: i)
  case Nil
  then show ?case by simp
next
  case (Cons n ns)
  show ?case
  proof (cases i)
    case 0
    with Cons.prems show ?thesis by simp
  next
    case (Suc k)
    with Cons.prems have "\<not> P n" by auto
    moreover have "promote_first P ns = ns[k := (ns ! k)\<lparr>node_type := ''ending_win''\<rparr>]"
    proof (rule Cons.IH)
      show "k < length ns" using Cons.prems(1) Suc by simp
      show "P (ns ! k)" using Cons.prems(2) Suc by simp
      show "\<forall>j<k. \<not> P (ns ! j)"
      proof (intro allI impI)
        fix j assume "j < k"
        then have "Suc j < i" using Suc by simp
        with Cons.prems(3) have "\<not> P ((n # ns) ! Suc j)" by blast
        then show "\<not> P (ns ! j)" by simp
      qed
    qed
    ultimately show ?thesis using Suc by simp
  qed
qed

lemma promote_first_none: "\<not> list_ex P ns \<Longrightarrow> promote_first P ns = ns"
  by (induction ns) auto

lemma ensure_win_cases:
  assumes "\<not> list_ex is_win ns"
  shows "ensure_win ns =
           (if list_ex cue_ending ns then promote_first cue_ending ns
            else promote_first (\<lambda>n. node_type n = ''ending_neutral'') ns)"
proof (cases "list_ex cue_ending ns")
  case True
  from promote_first_wins [OF True] assms True show ?thesis by (simp add: ensure_win_def)
next
  case False
  with assms show ?thesis by (simp add: ensure_win_def promote_first_none)
qed

lemma ensure_win_wins:
  assumes "list_ex (\<lambda>n. node_type n = ''ending_win'' \<or> node_type n = ''ending_neutral'') ns"
  shows "list_ex is_win (ensure_win ns)"
proof (cases "list_ex is_win ns")
  case True
  then show ?thesis by (simp add: ensure_win_def)
next
  case False
  with assms have neu: "list_ex (\<lambda>n. node_type n = ''ending_neutral'') ns"
    by (auto simp: list_ex_iff is_win_def)
  show ?thesis
  proof (cases "list_ex cue_ending ns")
    case True
    from promote_first_wins [OF True] False True show ?thesis
      by (simp add: ensure_win_cases)
  next
    case no: False
    from promote_first_wins [OF neu] False no show ?thesis
      by (simp add: ensure_win_cases)
  qed
qed

text \<open>
  Claim C2, as amended. Whenever \<^verbatim>\<open>auto_fix\<close> returns, its output holds a win ending:
  if the nodes hold none, the first neutral ending without choices, in list order and
  whatever its text, becomes one, and if there is no such node the win node
  \<^verbatim>\<open>section_999\<close> is appended. \<^verbatim>\<open>build_story\<close> of \<^verbatim>\<open>repair_story_text.py\<close> ends
  with \<^verbatim>\<open>ensure_win\<close>: if the nodes hold no win ending, the first neutral ending whose
  text contains "the end" and one of "return", "survive", "find", "worth" becomes one,
  and else the first neutral ending; its output holds a win ending whenever the nodes
  hold a win or a neutral ending.
\<close>

theorem win_ending_guarantee:
  "(auto_fix nodes = Inr out \<longrightarrow> list_ex is_win out)
   \<and> (\<not> list_ex is_win ns \<longrightarrow>
        guarantee_win ns =
          (if list_ex (\<lambda>n. node_type n = ''ending_neutral'' \<and> choices n = []) ns
           then promote_first (\<lambda>n. node_type n = ''ending_neutral'' \<and> choices n = []) ns
           else ns @ [\<lparr>node_id = ''section_999'', node_number = 999,
                       title = ''Final Triumphant Escape'',
                       node_text = ''You survive and escape. Victory is yours.'',
                       node_type = ''ending_win'', choices = []\<rparr>]))
   \<and> (\<not> list_ex is_win ns \<longrightarrow>
        ensure_win ns =
          (if list_ex cue_ending ns then promote_first cue_ending ns
           else promote_first (\<lambda>n. node_type n = ''ending_neutral'') ns))
   \<and> (i < length ns \<and> P (ns ! i) \<and> (\<forall>j<i. \<not> P (ns ! j)) \<longrightarrow>
        promote_first P ns = ns[i := (ns ! i)\<lparr>node_type := ''ending_win''\<rparr>])
   \<and> (list_ex (\<lambda>n. node_type n = ''ending_win'' \<or> node_type n = ''ending_neutral'') ns \<longrightarrow>
        list_ex is_win (ensure_win ns))
   \<and> fst (build_story payloads changes) =
        ensure_win (entry_first (map (\<lambda>(n, payload). story_node n payload)
          (sort_key fst (fst (repair_links payloads changes)))))"
proof (intro conjI impI)
  assume "auto_fix nodes = Inr out"
  then show "list_ex is_win out" by (rule auto_fix_wins)
next
  assume "\<not> list_ex is_win ns"
  then show "guarantee_win ns =
          (if list_ex (\<lambda>n. node_type n = ''ending_neutral'' \<and> choices n = []) ns
           then promote_first (\<lambda>n. node_type n = ''ending_neutral'' \<and> choices n = []) ns
           else ns @ [\<lparr>node_id = ''section_999'', node_number = 999,
                       title = ''Final Triumphant Escape'',
                       node_text = ''You survive and escape. Victory is yours.'',
                       node_type = ''ending_win'', choices = []\<rparr>])"
    by (simp add: guarantee_win_def victory_node_def)
next
  assume "\<not> list_ex is_win ns"
  then show "ensure_win ns =
          (if list_ex cue_ending ns then promote_first cue_ending ns
           else promote_first (\<lambda>n. node_type n = ''ending_neutral'') ns)"
    by (rule ensure_win_cases)
next
  assume "i < length ns \<and> P (ns ! i) \<and> (\<forall>j<i. \<not> P (ns ! j))"
  then show "promote_first P ns = ns[i := (ns ! i)\<lparr>node_type := ''ending_win''\<rparr>]"
    by (intro promote_first_at) blast+
next
  assume "list_ex (\<lambda>n. node_type n = ''ending_win'' \<or> node_type n = ''ending_neutral'') ns"
  then show "list_ex is_win (ensure_win ns)" by (rule ensure_win_wins)
next
  show "fst (build_story payloads changes) =
        ensure_win (entry_first (map (\<lambda>(n, payload). story_node n payload)
          (sort_key fst (fst (repair_links payloads changes)))))"
    by (simp add: build_story_def split: prod.splits)
qed

theorem win_ending_guarantee_witness:
  "auto_fix [quiet_ending, cue_ending_node]
     = Inr [quiet_ending\<lparr>node_type := ''ending_win''\<rparr>, cue_ending_node]
   \<and> list_ex is_win [quiet_ending\<lparr>node_type := ''ending_win''\<rparr>, cue_ending_node]
   \<and> \<not> list_ex is_win [quiet_ending, cue_ending_node]
   \<and> (1 :: nat) < length [quiet_ending, cue_ending_node]
   \<and> cue_ending ([quiet_ending, cue_ending_node] ! 1)
   \<and> \<not> cue_ending ([quiet_ending, cue_ending_node] ! 0)
   \<and> list_ex (\<lambda>n. node_type n = ''ending_win'' \<or> node_type n = ''ending_neutral'')
        [quiet_ending, cue_ending_node]
   \<and> ensure_win [quiet_ending, cue_ending_node]
        = [quiet_ending, cue_ending_node\<lparr>node_type := ''ending_win''\<rparr>]
   \<and> list_ex is_win (ensure_win [quiet_ending, cue_ending_node])"
proof -
  let ?ns = "[quiet_ending, cue_ending_node]"
  note t = win_ending_guarantee [where nodes = ?ns and ns = ?ns and i = 1 and P = cue_ending
      and out = "[quiet_ending\<lparr>node_type := ''ending_win''\<rparr>, cue_ending_node]"]
  have nowin: "\<not> list_ex is_win ?ns"
    by (simp add: is_win_def quiet_ending_def cue_ending_node_def)
  have cue: "cue_ending (?ns ! 1)" "\<not> cue_ending (?ns ! 0)" "list_ex cue_ending ?ns"
    by (simp_all add: cue_ending_examples)
  have neu: "list_ex (\<lambda>n. node_type n = ''ending_win'' \<or> node_type n = ''ending_neutral'') ?ns"
    by (simp add: quiet_ending_def)
  have first: "\<forall>j<1. \<not> cue_ending (?ns ! j)" using cue(2) by simp
  from t two_endings_fixed
  have w1: "list_ex is_win [quiet_ending\<lparr>node_type := ''ending_win''\<rparr>, cue_ending_node]"
    by blast
  from t nowin cue(3) have "ensure_win ?ns = promote_first cue_ending ?ns" by simp
  also from t cue(1) first have "\<dots> = ?ns[1 := (?ns ! 1)\<lparr>node_type := ''ending_win''\<rparr>]"
    by simp
  finally have e: "ensure_win ?ns = [quiet_ending, cue_ending_node\<lparr>node_type := ''ending_win''\<rparr>]"
    by simp
  from t neu have w2: "list_ex is_win (ensure_win ?ns)" by blast
  from two_endings_fixed w1 nowin cue(1,2) neu e w2 show ?thesis by simp
qed

theorem win_cascade_counterexample:
  "cue_ending cue_ending_node \<and> \<not> cue_ending quiet_ending
   \<and> auto_fix [quiet_ending, cue_ending_node]
       = Inr [quiet_ending\<lparr>node_type := ''ending_win''\<rparr>, cue_ending_node]
   \<and> \<not> list_ex is_win (fst (build_story doomed_parsed []))"
  by (simp add: cue_ending_examples two_endings_fixed doomed_story is_win_def)

section \<open>The duplicate-choice fixer\<close>

lemma unique_scan_spec:
  "distinct (map choice_key unique) \<Longrightarrow> set (map choice_key unique) \<subseteq> set seen \<Longrightarrow>
   \<exists>u. fst (unique_scan cs unique seen removed) = unique @ u
       \<and> distinct (map choice_key (unique @ u))
       \<and> removed \<le> snd (unique_scan cs unique seen removed)"
proof (induction cs arbitrary: unique seen removed)
  case Nil
  then show ?case by simp
next
  case (Cons c cs)
  show ?case
  proof (cases "choice_key c \<in> set seen")
    case True
    from Cons.IH [OF Cons.prems, of "removed + 1"] True show ?thesis by auto
  next
    case False
    with Cons.prems have d: "distinct (map choice_key (unique @ [c]))" by auto
    from Cons.prems have s: "set (map choice_key (unique @ [c])) \<subseteq> set (seen @ [choice_key c])"
      by auto
    from Cons.IH [OF d s, of removed] False show ?thesis by auto
  qed
qed

lemma unique_scan_distinct:
  "distinct (map choice_key cs) \<Longrightarrow> set (map choice_key cs) \<inter> set seen = {} \<Longrightarrow>
   unique_scan cs unique seen removed = (unique @ cs, removed)"
proof (induction cs arbitrary: unique seen)
  case Nil
  then show ?case by simp
next
  case (Cons c cs)
  from Cons.prems have "choice_key c \<notin> set seen" by auto
  moreover have "unique_scan cs (unique @ [c]) (seen @ [choice_key c]) removed
      = ((unique @ [c]) @ cs, removed)"
    using Cons.prems by (intro Cons.IH) auto
  ultimately show ?case by simp
qed

lemma fix_duplicates_loop_again:
  "fix_duplicates_loop ns r = (ns', r') \<Longrightarrow> fix_duplicates_loop ns' k = (ns', k)"
proof (induction ns arbitrary: r ns' r' k)
  case Nil
  then show ?case by simp
next
  case (Cons n ns)
  obtain u r1 where s: "unique_scan (choices n) [] [] r = (u, r1)"
    by (cases "unique_scan (choices n) [] [] r")
  obtain ns2 r2 where l: "fix_duplicates_loop ns r1 = (ns2, r2)"
    by (cases "fix_duplicates_loop ns r1")
  from Cons.prems s l have eq: "ns' = n\<lparr>choices := take 4 u\<rparr> # ns2" by simp
  from unique_scan_spec [of "[]" "[]" "choices n" r] s have "distinct (map choice_key u)" by auto
  then have "distinct (map choice_key (take 4 u))"
    by (simp add: take_map [symmetric] distinct_take)
  then have "unique_scan (take 4 u) [] [] k = (take 4 u, k)"
    using unique_scan_distinct [of "take 4 u" "[]" "[]" k] by simp
  with Cons.IH [OF l, of k] eq show ?case by simp
qed

text \<open>
  Claim C9. The duplicate-choice fixer is idempotent: applied to its own result, it
  removes 0 duplicates and returns the node list unchanged.
\<close>

theorem fix_duplicate_choices_idempotent:
  "fix_duplicate_choices (snd (fix_duplicate_choices nodes))
     = (0, snd (fix_duplicate_choices nodes))"
proof -
  obtain ns' r where l: "fix_duplicates_loop nodes 0 = (ns', r)"
    by (cases "fix_duplicates_loop nodes 0")
  from fix_duplicates_loop_again [OF l, of 0] l show ?thesis
    by (simp add: fix_duplicate_choices_def)
qed

lemma scenario_E_fixed:
  "fix_duplicate_choices scenario_E =
     (1, [\<lparr>node_id = ''section_1'', node_number = 1, title = ''Forest Road'',
            node_text = ''A fork in the forest road.'', node_type = ''normal'',
            choices = [\<lparr>choice_text = ''Go north'', next_id = ''section_2''\<rparr>]\<rparr>,
          \<lparr>node_id = ''section_2'', node_number = 2, title = ''Forest Road'',
            node_text = ''A quiet glade in the forest.'', node_type = ''ending_win'',
            choices = []\<rparr>])"
  by code_simp

section \<open>The exit code of the linter\<close>


lemma lint_checks_lines:
  "fst (lint_checks args nodes) =
     [Check_line (verdict_of (choice_duplicates nodes = [])) Duplicate_choices,
      Check_line (verdict_of (\<not> fst (reachable_ratio nodes) < min_reachable_ratio args))
        Reachable_ratio,
      Check_line (verdict_of (\<not> fst (max_noise_ratio nodes) > max_noise_ratio_arg args))
        Noise_ratio]"
  "snd (lint_checks args nodes) =
     (\<not> (choice_duplicates nodes = []
         \<and> \<not> fst (reachable_ratio nodes) < min_reachable_ratio args
         \<and> \<not> fst (max_noise_ratio nodes) > max_noise_ratio_arg args))"
  by (auto simp: lint_checks_def Let_def verdict_of_def)

text \<open>
  Claim C8. When the story loads, the linter prints exactly one PASS or FAIL line for each
  of the three checks (duplicate choices, reachability ratio, noise ratio, in this
  order) and exits with 0 if all three pass and with 1 otherwise; when the story does
  not load (missing file, invalid JSON, root not a list) it prints no verdict and exits
  with 2. So the exit code is 0 exactly when the story loads and all three checks pass.
\<close>

theorem lint_exit_code:
  "(st = Story nodes \<longrightarrow>
      (let checked = (if fix_flag args then snd (fix_duplicate_choices nodes) else nodes);
           v1 = verdict_of (choice_duplicates checked = []);
           v2 = verdict_of (\<not> fst (reachable_ratio checked) < min_reachable_ratio args);
           v3 = verdict_of (\<not> fst (max_noise_ratio checked) > max_noise_ratio_arg args)
       in filter is_check_line (printed (lint_main args st))
            = [Check_line v1 Duplicate_choices, Check_line v2 Reachable_ratio,
               Check_line v3 Noise_ratio]
          \<and> exit_code (lint_main args st)
            = (if v1 = PASS \<and> v2 = PASS \<and> v3 = PASS then 0 else 1)))
   \<and> (st = Missing \<or> st = Invalid_json \<or> st = Not_a_list \<longrightarrow>
        exit_code (lint_main args st) = 2
        \<and> filter is_check_line (printed (lint_main args st)) = [])
   \<and> (exit_code (lint_main args st) = 0) =
       (\<exists>loaded. st = Story loaded
          \<and> filter is_check_line (printed (lint_main args st))
              = [Check_line PASS Duplicate_choices, Check_line PASS Reachable_ratio,
                 Check_line PASS Noise_ratio])"
proof (cases st)
  case (Story loaded)
  let ?checked = "if fix_flag args then snd (fix_duplicate_choices loaded) else loaded"
  obtain removed nodes1 where
    f: "(if fix_flag args then fix_duplicate_choices loaded else (0, loaded)) = (removed, nodes1)"
    by (cases "if fix_flag args then fix_duplicate_choices loaded else (0, loaded)")
  then have n1: "nodes1 = ?checked" by (auto split: if_splits)
  obtain ls failed where c: "lint_checks args nodes1 = (ls, failed)"
    by (cases "lint_checks args nodes1")
  from c have ls: "ls = fst (lint_checks args nodes1)" and fl: "failed = snd (lint_checks args nodes1)"
    by simp_all
  have keep: "filter is_check_line ls = ls"
    unfolding ls lint_checks_lines by (simp add: is_check_line_def)
  have "printed (lint_main args st)
      = (if fix_flag args \<and> removed \<noteq> 0 then [Fixed_line removed] else []) @ ls"
    and e0: "exit_code (lint_main args st) = (if failed then 1 else 0)"
    using Story f c by (simp_all add: lint_main_def)
  then have p: "filter is_check_line (printed (lint_main args st)) = fst (lint_checks args ?checked)"
    using keep ls n1 by (simp add: is_check_line_def)
  have e: "exit_code (lint_main args st) = (if snd (lint_checks args ?checked) then 1 else 0)"
    using e0 fl n1 by simp
  show ?thesis
    using Story p e by (auto simp: Let_def lint_checks_lines verdict_of_def)
qed (simp_all add: lint_main_def is_check_line_def)

theorem lint_exit_code_witness:
  "exit_code (lint_main \<lparr>min_reachable_ratio = 15 / 100, max_noise_ratio_arg = 3 / 100,
       fix_flag = False\<rparr> (Story scenario_E)) = 1
   \<and> printed (lint_main \<lparr>min_reachable_ratio = 15 / 100, max_noise_ratio_arg = 3 / 100,
       fix_flag = False\<rparr> (Story scenario_E))
      = [Check_line FAIL Duplicate_choices, Check_line PASS Reachable_ratio,
         Check_line PASS Noise_ratio]
   \<and> exit_code (lint_main \<lparr>min_reachable_ratio = 15 / 100, max_noise_ratio_arg = 3 / 100,
       fix_flag = True\<rparr> (Story scenario_E)) = 0
   \<and> printed (lint_main \<lparr>min_reachable_ratio = 15 / 100, max_noise_ratio_arg = 3 / 100,
       fix_flag = True\<rparr> (Story scenario_E))
      = [Fixed_line 1, Check_line PASS Duplicate_choices, Check_line PASS Reachable_ratio,
         Check_line PASS Noise_ratio]
   \<and> exit_code (lint_main \<lparr>min_reachable_ratio = 15 / 100, max_noise_ratio_arg = 3 / 100,
       fix_flag = True\<rparr> Missing) = 2"
proof -
  let ?plain = "\<lparr>min_reachable_ratio = 15 / 100, max_noise_ratio_arg = 3 / 100, fix_flag = False\<rparr>"
  let ?fix = "\<lparr>min_reachable_ratio = 15 / 100, max_noise_ratio_arg = 3 / 100, fix_flag = True\<rparr>"
  have p1: "printed (lint_main ?plain (Story scenario_E))
      = [Check_line FAIL Duplicate_choices, Check_line PASS Reachable_ratio,
         Check_line PASS Noise_ratio]"
    by code_simp
  have p2: "printed (lint_main ?fix (Story scenario_E))
      = [Fixed_line 1, Check_line PASS Duplicate_choices, Check_line PASS Reachable_ratio,
         Check_line PASS Noise_ratio]"
    by code_simp
  note t1 = lint_exit_code [where st = "Story scenario_E" and nodes = scenario_E and args = ?plain]
  note t2 = lint_exit_code [where st = "Story scenario_E" and nodes = scenario_E and args = ?fix]
  note t3 = lint_exit_code [where st = Missing and nodes = scenario_E and args = ?fix]
  have e2: "exit_code (lint_main ?fix (Story scenario_E)) = 0"
    using t2 p2 by (simp add: is_check_line_def)
  have "exit_code (lint_main ?plain (Story scenario_E)) \<noteq> 0"
    using t1 p1 by (simp add: is_check_line_def)
  moreover have "exit_code (lint_main ?plain (Story scenario_E)) = 0
      \<or> exit_code (lint_main ?plain (Story scenario_E)) = 1"
    using t1 by (simp add: Let_def)
  ultimately have e1: "exit_code (lint_main ?plain (Story scenario_E)) = 1" by blast
  have e3: "exit_code (lint_main ?fix Missing) = 2" using t3 by simp
  from e1 p1 e2 p2 e3 show ?thesis by blast
qed


end
